theory Spec2Isabelle
  imports Complex_Main "HOL-Library.Sublist"
begin

section \<open>JavaScript strings\<close>

text \<open>
  Strings are lists of characters: the bytes of the UTF-8 form of the JavaScript string.
  All patterns and markers of the source are ASCII.  The two quote characters are named,
  since the patterns of the resolver are built around them.
\<close>

definition dquote :: char where
  "dquote = CHR 0x22"

definition squote :: char where
  "squote = CHR 0x27"

text \<open>\<^verbatim>\<open>s.includes(t)\<close>, \<^verbatim>\<open>s.startsWith(t)\<close>, \<^verbatim>\<open>s.endsWith(t)\<close>.\<close>

definition str_includes :: "string \<Rightarrow> string \<Rightarrow> bool" where
  "str_includes s t = sublist t s"

definition startsWith :: "string \<Rightarrow> string \<Rightarrow> bool" where
  "startsWith s t = prefix t s"

definition endsWith :: "string \<Rightarrow> string \<Rightarrow> bool" where
  "endsWith s t = suffix t s"

text \<open>\<^verbatim>\<open>toLowerCase\<close> on the ASCII letters.\<close>

definition toLowerChar :: "char \<Rightarrow> char" where
  "toLowerChar c =
     (case map_of (zip ''ABCDEFGHIJKLMNOPQRSTUVWXYZ'' ''abcdefghijklmnopqrstuvwxyz'') c of
        Some l \<Rightarrow> l
      | None \<Rightarrow> c)"

definition toLowerCase :: "string \<Rightarrow> string" where
  "toLowerCase s = map toLowerChar s"

text \<open>
  \<^verbatim>\<open>s.replace(/pat/g, rep)\<close> for a literal, non-empty pattern: the occurrences are found
  from left to right, and the scan goes on behind each replaced occurrence.
\<close>

function replaceAll :: "string \<Rightarrow> string \<Rightarrow> string \<Rightarrow> string" where
  "replaceAll pat rep [] = []"
| "replaceAll pat rep (x # xs) =
     (if pat \<noteq> [] \<and> prefix pat (x # xs)
      then rep @ replaceAll pat rep (drop (length pat) (x # xs))
      else x # replaceAll pat rep xs)"
  by pat_completeness auto
termination
  by (relation "measure (\<lambda>(pat, rep, s). length s)") (auto simp: neq_Nil_conv)

section \<open>Regular expressions of the resolver\<close>

text \<open>
  The patterns of the source use literals (\<open>LitI\<close> where flag \<^verbatim>\<open>i\<close> makes the match
  ignore case), character classes, greedy \<^verbatim>\<open>*\<close> and \<^verbatim>\<open>+\<close> on a class, sequence, ordered
  alternative and one capture group whose text is read (group 1).
\<close>

datatype rx =
    Lit string
  | LitI string
  | Cls "char \<Rightarrow> bool"
  | Star "char \<Rightarrow> bool"
  | Plus "char \<Rightarrow> bool"
  | Seq rx rx
  | Alt rx rx
  | Grp rx

text \<open>
  A matcher state is the input still to read and the text of group 1.  \<open>rx_run\<close> lists
  the states after a match in the order a backtracking matcher tries them: longer
  repetitions first, the left alternative first.
\<close>

type_synonym rx_state = "string \<times> string option"

definition lit_matches :: "string \<Rightarrow> string \<Rightarrow> bool" where
  "lit_matches l s = (length l \<le> length s \<and> take (length l) s = l)"

definition liti_matches :: "string \<Rightarrow> string \<Rightarrow> bool" where
  "liti_matches l s = (length l \<le> length s \<and> toLowerCase (take (length l) s) = toLowerCase l)"

fun rx_run :: "rx \<Rightarrow> rx_state \<Rightarrow> rx_state list" where
  "rx_run (Lit l) (s, c) = (if lit_matches l s then [(drop (length l) s, c)] else [])"
| "rx_run (LitI l) (s, c) = (if liti_matches l s then [(drop (length l) s, c)] else [])"
| "rx_run (Cls p) (s, c) = (case s of [] \<Rightarrow> [] | x # t \<Rightarrow> if p x then [(t, c)] else [])"
| "rx_run (Star p) (s, c) =
     map (\<lambda>k. (drop k s, c)) (rev [0 ..< Suc (length (takeWhile p s))])"
| "rx_run (Plus p) (s, c) =
     map (\<lambda>k. (drop k s, c)) (rev [1 ..< Suc (length (takeWhile p s))])"
| "rx_run (Seq a b) st = concat (map (rx_run b) (rx_run a st))"
| "rx_run (Alt a b) st = rx_run a st @ rx_run b st"
| "rx_run (Grp a) (s, c) =
     map (\<lambda>(s', c'). (s', Some (take (length s - length s') s))) (rx_run a (s, c))"

text \<open>
  \<^verbatim>\<open>s.match(re)\<close> without flag \<^verbatim>\<open>g\<close>: the leftmost start position that has a match, and
  there the first match in backtracking order.  The result is group 1 (\<open>None\<close> inside
  \<open>Some\<close> when the pattern has no group); \<open>None\<close> is JavaScript's \<^verbatim>\<open>null\<close>.
\<close>

fun rx_match :: "rx \<Rightarrow> string \<Rightarrow> string option option" where
  "rx_match r [] = (case rx_run r ([], None) of [] \<Rightarrow> None | (s', c) # _ \<Rightarrow> Some c)"
| "rx_match r (x # xs) =
     (case rx_run r (x # xs, None) of [] \<Rightarrow> rx_match r xs | (s', c) # _ \<Rightarrow> Some c)"

text \<open>Group 1 of a match of a pattern that has the group.\<close>

definition match1 :: "rx \<Rightarrow> string \<Rightarrow> string option" where
  "match1 r s = (case rx_match r s of Some (Some g) \<Rightarrow> Some g | _ \<Rightarrow> None)"

definition is_quote :: "char \<Rightarrow> bool" where
  "is_quote c = (c = dquote \<or> c = squote)"

definition not_quote :: "char \<Rightarrow> bool" where
  "not_quote c = (\<not> is_quote c)"

definition is_digit :: "char \<Rightarrow> bool" where
  "is_digit c = (c \<in> set ''0123456789'')"

text \<open>\<^verbatim>\<open>/href=["']([^"']*wpdmdl=\d+[^"']*)["']/i\<close>\<close>

definition wpdmLinkRe :: rx where
  "wpdmLinkRe =
     Seq (LitI ''href='') (Seq (Cls is_quote)
       (Seq (Grp (Seq (Star not_quote) (Seq (LitI ''wpdmdl='') (Seq (Plus is_digit) (Star not_quote)))))
         (Cls is_quote)))"

text \<open>\<^verbatim>\<open>/href=["']([^"']*\.pdf[^"']*)["']/i\<close>\<close>

definition pdfLinkRe :: rx where
  "pdfLinkRe =
     Seq (LitI ''href='') (Seq (Cls is_quote)
       (Seq (Grp (Seq (Star not_quote) (Seq (LitI ''.pdf'') (Star not_quote))))
         (Cls is_quote)))"

section \<open>Landing-page extractors\<close>

text \<open>
  \<^verbatim>\<open>new URL(url)\<close> is the platform's parser and is a parameter of the model: it yields
  the protocol and the host, or \<open>None\<close> where the constructor throws.
\<close>

record url_parts =
  protocol :: string
  host :: string

type_synonym url_parser = "string \<Rightarrow> url_parts option"

datatype error = TypeError | ScrapeError string

text \<open>
  The chain of five \<^verbatim>\<open>replace\<close> calls that every extractor applies to the captured
  href, in the order of the source.
\<close>

definition decodeEntities :: "string \<Rightarrow> string" where
  "decodeEntities s =
     replaceAll ''&gt;'' ''>''
       (replaceAll ''&lt;'' ''<''
         (replaceAll ''&#039;'' [squote]
           (replaceAll ''&quot;'' [dquote]
             (replaceAll ''&amp;'' ''&'' s))))"

text \<open>\<^verbatim>\<open>`${urlObj.protocol}//${urlObj.host}${href}`\<close> with \<^verbatim>\<open>urlObj = new URL(url)\<close>.\<close>

definition withOrigin :: "url_parser \<Rightarrow> string \<Rightarrow> string \<Rightarrow> error + string" where
  "withOrigin parse url href =
     (case parse url of
        None \<Rightarrow> Inl TypeError
      | Some u \<Rightarrow> Inr (protocol u @ ''//'' @ host u @ href))"

text \<open>The WordPress branch makes the href absolute only when it starts with a slash.\<close>

definition absoluteIfSlash :: "url_parser \<Rightarrow> string \<Rightarrow> string \<Rightarrow> error + string" where
  "absoluteIfSlash parse url href =
     (if startsWith href ''/'' then withOrigin parse url href else Inr href)"

definition some_url :: "error + string \<Rightarrow> error + string option" where
  "some_url r = (case r of Inl e \<Rightarrow> Inl e | Inr u \<Rightarrow> Inr (Some u))"

definition extractWordPressDownloadUrl ::
    "url_parser \<Rightarrow> string \<Rightarrow> string \<Rightarrow> error + string option" where
  "extractWordPressDownloadUrl parse url html =
     (let hasWpdmInUrl = str_includes url ''wpdmdl='';
          isWpdmPage = (str_includes url ''/download/'' \<or> str_includes html ''wpdm-download-link''
                        \<or> str_includes html ''wpdm_view_count'')
      in if hasWpdmInUrl then Inr None
         else if \<not> isWpdmPage then Inr None
         else case match1 wpdmLinkRe html of
                Some g \<Rightarrow> some_url (absoluteIfSlash parse url (decodeEntities g))
              | None \<Rightarrow>
                 (case match1 pdfLinkRe html of
                    Some g \<Rightarrow> some_url (absoluteIfSlash parse url (decodeEntities g))
                  | None \<Rightarrow> Inr None))"

text \<open>\<^verbatim>\<open>/\?preview=(\d+)/\<close> (only tested against \<^verbatim>\<open>null\<close>).\<close>

definition previewRe :: rx where
  "previewRe = Seq (Lit ''?preview='') (Grp (Plus is_digit))"

text \<open>\<^verbatim>\<open>/href=["'](\/filepro\/document\/\d+\/[^"']+\.pdf)["']/i\<close>\<close>

definition civicDocLinkRe :: rx where
  "civicDocLinkRe =
     Seq (LitI ''href='') (Seq (Cls is_quote)
       (Seq (Grp (Seq (LitI ''/filepro/document/'') (Seq (Plus is_digit)
              (Seq (LitI ''/'') (Seq (Plus not_quote) (LitI ''.pdf''))))))
         (Cls is_quote)))"

definition extractCivicWebDocumentUrl ::
    "url_parser \<Rightarrow> string \<Rightarrow> string \<Rightarrow> error + string option" where
  "extractCivicWebDocumentUrl parse url html =
     (let isCivicWebPreview =
            (str_includes url ''/filepro/documents/?preview='' \<or>
             (str_includes url ''civicweb.net'' \<and> str_includes url ''/filepro/documents''))
      in if \<not> isCivicWebPreview then Inr None
         else if rx_match previewRe url = None then Inr None
         else case match1 civicDocLinkRe html of
                Some g \<Rightarrow> some_url (withOrigin parse url (decodeEntities g))
              | None \<Rightarrow> Inr None)"

text \<open>
  \<^verbatim>\<open>(pdf|doc|docx|xls|xlsx|ppt|pptx)\<close>; in the source this is group 2, which is never
  read.
\<close>

definition docExtRe :: rx where
  "docExtRe =
     Alt (LitI ''pdf'') (Alt (LitI ''doc'') (Alt (LitI ''docx'') (Alt (LitI ''xls'')
       (Alt (LitI ''xlsx'') (Alt (LitI ''ppt'') (LitI ''pptx''))))))"

text \<open>\<^verbatim>\<open>/href=["'](\/dsweb\/Get\/Document-\d+\/[^"']+\.(pdf|doc|docx|xls|xlsx|ppt|pptx))["']/i\<close>\<close>

definition dsGetRe :: rx where
  "dsGetRe =
     Seq (LitI ''href='') (Seq (Cls is_quote)
       (Seq (Grp (Seq (LitI ''/dsweb/Get/Document-'') (Seq (Plus is_digit)
              (Seq (LitI ''/'') (Seq (Plus not_quote) (Seq (LitI ''.'') docExtRe))))))
         (Cls is_quote)))"

text \<open>\<^verbatim>\<open>/href=["'](\/dsweb\/ServicesLib\/Document-\d+\/[^"']+\.(pdf|doc|docx|xls|xlsx|ppt|pptx))["']/i\<close>\<close>

definition dsServicesRe :: rx where
  "dsServicesRe =
     Seq (LitI ''href='') (Seq (Cls is_quote)
       (Seq (Grp (Seq (LitI ''/dsweb/ServicesLib/Document-'') (Seq (Plus is_digit)
              (Seq (LitI ''/'') (Seq (Plus not_quote) (Seq (LitI ''.'') docExtRe))))))
         (Cls is_quote)))"

text \<open>\<^verbatim>\<open>/href=["'](\/[^"']*(?:docushare|dsweb)[^"']+\.(pdf|doc|docx|xls|xlsx|ppt|pptx))["']/i\<close>\<close>

definition dsDirectRe :: rx where
  "dsDirectRe =
     Seq (LitI ''href='') (Seq (Cls is_quote)
       (Seq (Grp (Seq (LitI ''/'') (Seq (Star not_quote)
              (Seq (Alt (LitI ''docushare'') (LitI ''dsweb''))
                (Seq (Plus not_quote) (Seq (LitI ''.'') docExtRe))))))
         (Cls is_quote)))"

definition extractDocuShareDocumentUrl ::
    "url_parser \<Rightarrow> string \<Rightarrow> string \<Rightarrow> error + string option" where
  "extractDocuShareDocumentUrl parse url html =
     (let isDocuSharePage =
            (str_includes url ''/docushare/dsweb/'' \<or> str_includes url ''DocuShare'' \<or>
             str_includes html ''DocuShare'' \<or> str_includes html ''/dsweb/Get/'' \<or>
             str_includes html ''/dsweb/ServicesLib/'')
      in if \<not> isDocuSharePage then Inr None
         else case match1 dsGetRe html of
                Some g \<Rightarrow> some_url (withOrigin parse url (decodeEntities g))
              | None \<Rightarrow>
                 (case match1 dsServicesRe html of
                    Some g \<Rightarrow> some_url (withOrigin parse url (decodeEntities g))
                  | None \<Rightarrow>
                     (case match1 dsDirectRe html of
                        Some g \<Rightarrow> some_url (withOrigin parse url (decodeEntities g))
                      | None \<Rightarrow> Inr None)))"

section \<open>Scrape results and scrapeDocument\<close>

datatype ScraperType = Basic | Tree | Ajax | Scroll | Pagination | Tabs | Hybrid

text \<open>The values of \<^verbatim>\<open>metadata.strategy\<close>: four fixed strings, or the scraper's type.\<close>

datatype doc_strategy =
    DirectDownload
  | WordpressPdfLink
  | CivicwebPdfLink
  | DocushareDocLink
  | ScraperStrategy ScraperType

text \<open>
  A captured download.  Each field may be absent; \<open>dl_content\<close> stands for the bytes of
  the file.
\<close>

record DownloadInfo =
  dl_url :: "string option"
  dl_filename :: "string option"
  dl_content :: "string option"
  dl_error :: "string option"

text \<open>
  A link as the scrapers return it (\<^verbatim>\<open>Link\<close>); the optional fields are \<open>None\<close> for
  \<^verbatim>\<open>undefined\<close>.
\<close>

record Link =
  l_href :: string
  l_text :: string
  l_title :: "string option"
  l_ariaLabel :: "string option"
  l_rel :: "string option"
  l_target :: "string option"
  l_classes :: "string list option"

text \<open>
  \<^verbatim>\<open>ScrapeResult\<close>: strategy type and confidence, the metrics without the duration, and
  of \<^verbatim>\<open>raw\<close> the download flag and the captured downloads.  The confidence values of
  the source are the decimal constants 0.9, 0.8, 0.5 and 1.0, kept as exact reals.
\<close>

record ScrapeResult =
  sr_url :: string
  sr_content :: string
  sr_links :: "Link list"
  sr_type :: ScraperType
  sr_confidence :: real
  sr_linkCount :: nat
  sr_interactionCount :: nat
  sr_complete :: bool
  sr_isDownload :: bool
  sr_downloads :: "DownloadInfo list option"

text \<open>
  The fields of the returned document that classify it.  The extracted text, title and
  description are computed from the content alone and are left out.
\<close>

record DocumentResult =
  doc_url :: string
  doc_type :: string
  doc_isDownload :: bool
  doc_isPdf :: bool
  doc_complete :: bool
  doc_strategy :: doc_strategy

text \<open>\<^verbatim>\<open>a || b\<close> on an optional string: absent and empty are both falsy.\<close>

definition or_else :: "string option \<Rightarrow> string \<Rightarrow> string" where
  "or_else a b = (case a of None \<Rightarrow> b | Some s \<Rightarrow> if s = [] then b else s)"

definition truthy :: "string option \<Rightarrow> bool" where
  "truthy a = (case a of None \<Rightarrow> False | Some s \<Rightarrow> s \<noteq> [])"

definition normalizeUrl :: "string \<Rightarrow> string" where
  "normalizeUrl url =
     (if str_includes url ''/download/'' \<and> \<not> str_includes url ''?'' \<and> \<not> endsWith url ''/''
      then url @ ''/'' else url)"

definition downloadResult :: "string \<Rightarrow> DownloadInfo \<Rightarrow> DocumentResult" where
  "downloadResult normalizedUrl download =
     (let filename = or_else (dl_filename download) [];
          isPdf = endsWith (toLowerCase filename) ''.pdf'';
          contentType =
            (if isPdf then ''application/pdf''
             else if endsWith (toLowerCase filename) ''.doc'' then ''application/msword''
             else if endsWith (toLowerCase filename) ''.docx''
               then ''application/vnd.openxmlformats-officedocument.wordprocessingml.document''
             else ''application/octet-stream'')
      in \<lparr> doc_url = or_else (dl_url download) normalizedUrl,
           doc_type = contentType,
           doc_isDownload = True,
           doc_isPdf = isPdf,
           doc_complete = (dl_content download \<noteq> None \<and> \<not> truthy (dl_error download)),
           doc_strategy = DirectDownload \<rparr>)"

definition landingResult :: "string \<Rightarrow> string \<Rightarrow> bool \<Rightarrow> doc_strategy \<Rightarrow> DocumentResult" where
  "landingResult u ty isPdf strat =
     \<lparr> doc_url = u, doc_type = ty, doc_isDownload = False, doc_isPdf = isPdf,
       doc_complete = False, doc_strategy = strat \<rparr>"

definition plainResult :: "string \<Rightarrow> string \<Rightarrow> ScrapeResult \<Rightarrow> DocumentResult" where
  "plainResult url actualUrl result =
     (let isPdf = (endsWith (toLowerCase url) ''.pdf'' \<or>
                   str_includes (sr_content result) ''application/pdf'' \<or>
                   str_includes (sr_content result) ''%PDF-'')
      in \<lparr> doc_url = actualUrl,
           doc_type = (if isPdf then ''application/pdf'' else ''text/html''),
           doc_isDownload = False,
           doc_isPdf = isPdf,
           doc_complete = sr_complete result,
           doc_strategy = ScraperStrategy (sr_type result) \<rparr>)"

text \<open>
  The scraper is a parameter (\<^verbatim>\<open>(await getScraper(...)).scrape\<close>); an error it throws
  leaves \<open>scrapeDocument\<close> unchanged.  The branches follow the source: a captured
  download first, then the WordPress, CivicWeb and DocuShare extractors, then the plain
  page.
\<close>

definition scrapeDocument ::
    "url_parser \<Rightarrow> (string \<Rightarrow> error + ScrapeResult) \<Rightarrow> string \<Rightarrow> error + DocumentResult" where
  "scrapeDocument parse scrape url =
     (let normalizedUrl = normalizeUrl url
      in case scrape normalizedUrl of
           Inl e \<Rightarrow> Inl e
         | Inr result \<Rightarrow>
            (case sr_downloads result of
               Some (download # _) \<Rightarrow> Inr (downloadResult normalizedUrl download)
             | _ \<Rightarrow>
               (case extractWordPressDownloadUrl parse normalizedUrl (sr_content result) of
                  Inl e \<Rightarrow> Inl e
                | Inr wpDownloadUrl \<Rightarrow>
                   if truthy wpDownloadUrl
                   then Inr (landingResult (the wpDownloadUrl) ''application/pdf'' True WordpressPdfLink)
                   else
                   (case extractCivicWebDocumentUrl parse url (sr_content result) of
                      Inl e \<Rightarrow> Inl e
                    | Inr civicWebUrl \<Rightarrow>
                       if truthy civicWebUrl
                       then Inr (landingResult (the civicWebUrl) ''application/pdf'' True CivicwebPdfLink)
                       else
                       (case extractDocuShareDocumentUrl parse url (sr_content result) of
                          Inl e \<Rightarrow> Inl e
                        | Inr docuShareUrl \<Rightarrow>
                           if truthy docuShareUrl
                           then (let isPdf = endsWith (toLowerCase (the docuShareUrl)) ''.pdf''
                                 in Inr (landingResult (the docuShareUrl)
                                      (if isPdf then ''application/pdf'' else ''application/octet-stream'')
                                      isPdf DocushareDocLink))
                           else Inr (plainResult url normalizedUrl result))))))"

text \<open>The strategy of a returned document, \<open>None\<close> when \<open>scrapeDocument\<close> throws.\<close>

definition strategy_of :: "error + DocumentResult \<Rightarrow> doc_strategy option" where
  "strategy_of r = (case r of Inl e \<Rightarrow> None | Inr d \<Rightarrow> Some (doc_strategy d))"

section \<open>Link extraction\<close>

text \<open>
  \<^verbatim>\<open>trim\<close> on the ASCII white space (tab, line feed, vertical tab, form feed, carriage
  return, space); the white space beyond ASCII is not modelled.
\<close>

definition is_space :: "char \<Rightarrow> bool" where
  "is_space c = (c \<in> {CHR 0x09, CHR 0x0A, CHR 0x0B, CHR 0x0C, CHR 0x0D, CHR 0x20})"

definition trim :: "string \<Rightarrow> string" where
  "trim s = rev (dropWhile is_space (rev (dropWhile is_space s)))"

text \<open>\<^verbatim>\<open>s.split(' ')\<close>: the pieces between single spaces, empty pieces included.\<close>

fun split_space :: "string \<Rightarrow> string list" where
  "split_space [] = [[]]"
| "split_space (c # cs) =
     (if c = CHR 0x20 then [] # split_space cs
      else case split_space cs of
             [] \<Rightarrow> [[c]]
           | w # ws \<Rightarrow> (c # w) # ws)"

text \<open>\<^verbatim>\<open>cls.split(' ').filter((c) => c.trim())\<close>\<close>

definition classesOf :: "string \<Rightarrow> string list" where
  "classesOf cls = filter (\<lambda>c. trim c \<noteq> []) (split_space cls)"

text \<open>\<^verbatim>\<open>x || undefined\<close> on a string.\<close>

definition or_undefined :: "string \<Rightarrow> string option" where
  "or_undefined s = (if s = [] then None else Some s)"

text \<open>
  An \<^verbatim>\<open>a\<close> element as cheerio gives it: \<^verbatim>\<open>attr(name)\<close> for the attributes (\<open>None\<close> when
  the attribute is absent) and \<^verbatim>\<open>text()\<close>.  The HTML parser with the selection
  \<^verbatim>\<open>$('a')\<close> is a parameter: it lists the elements in document order.
\<close>

record Anchor =
  a_href :: "string option"
  a_text :: string
  a_title :: "string option"
  a_ariaLabel :: "string option"
  a_rel :: "string option"
  a_target :: "string option"
  a_class :: "string option"

definition domLink :: "string \<Rightarrow> Anchor \<Rightarrow> Link" where
  "domLink h a =
     \<lparr> l_href = h,
       l_text = trim (a_text a),
       l_title = a_title a,
       l_ariaLabel = a_ariaLabel a,
       l_rel = a_rel a,
       l_target = a_target a,
       l_classes = (case a_class a of
                      None \<Rightarrow> None
                    | Some c \<Rightarrow> if c = [] then None else Some (classesOf c)) \<rparr>"

text \<open>\<open>DomAdapter.extractLinks\<close>: one \<^verbatim>\<open>push\<close> for every element with a non-empty href.\<close>

fun pushLinks :: "Anchor list \<Rightarrow> Link list \<Rightarrow> Link list" where
  "pushLinks [] links = links"
| "pushLinks (a # as) links =
     (case a_href a of
        None \<Rightarrow> pushLinks as links
      | Some h \<Rightarrow> if h = [] then pushLinks as links else pushLinks as (links @ [domLink h a]))"

definition DomAdapter_extractLinks :: "(string \<Rightarrow> Anchor list) \<Rightarrow> string \<Rightarrow> Link list" where
  "DomAdapter_extractLinks select_a html = pushLinks (select_a html) []"

text \<open>
  An element of \<^verbatim>\<open>document.querySelectorAll('a[href]')\<close> in the live page: the properties
  \<^verbatim>\<open>href\<close> (resolved by the browser), \<^verbatim>\<open>textContent\<close>, \<^verbatim>\<open>title\<close>, \<^verbatim>\<open>rel\<close>,
  \<^verbatim>\<open>target\<close>, \<^verbatim>\<open>className\<close>, and \<^verbatim>\<open>getAttribute('aria-label')\<close>.
\<close>

record DomAnchor =
  d_href :: string
  d_textContent :: string
  d_title :: string
  d_ariaLabel :: "string option"
  d_rel :: string
  d_target :: string
  d_className :: string

definition browserLink :: "DomAnchor \<Rightarrow> Link" where
  "browserLink d =
     \<lparr> l_href = d_href d,
       l_text = trim (d_textContent d),
       l_title = or_undefined (d_title d),
       l_ariaLabel = (case d_ariaLabel d of None \<Rightarrow> None | Some s \<Rightarrow> or_undefined s),
       l_rel = or_undefined (d_rel d),
       l_target = or_undefined (d_target d),
       l_classes = (if d_className d = [] then None else Some (classesOf (d_className d))) \<rparr>"

text \<open>
  A JavaScript \<^verbatim>\<open>Map\<close> with string keys: the entries in insertion order.  \<^verbatim>\<open>set\<close> on a
  key that is present replaces the value and keeps the position.
\<close>

type_synonym 'v jsmap = "(string \<times> 'v) list"

definition map_has :: "'v jsmap \<Rightarrow> string \<Rightarrow> bool" where
  "map_has m k = (k \<in> set (map fst m))"

fun map_set :: "'v jsmap \<Rightarrow> string \<Rightarrow> 'v \<Rightarrow> 'v jsmap" where
  "map_set [] k v = [(k, v)]"
| "map_set ((k', v') # m) k v = (if k' = k then (k, v) # m else (k', v') # map_set m k v)"

definition map_values :: "'v jsmap \<Rightarrow> 'v list" where
  "map_values m = map snd m"

text \<open>\<open>TreeScraper.extractCurrentLinks\<close>: the first element with an href wins.\<close>

fun collectLinks :: "DomAnchor list \<Rightarrow> Link jsmap \<Rightarrow> Link jsmap" where
  "collectLinks [] linkMap = linkMap"
| "collectLinks (a # as) linkMap =
     collectLinks as
       (if \<not> map_has linkMap (d_href a) then map_set linkMap (d_href a) (browserLink a)
        else linkMap)"

definition extractCurrentLinks :: "DomAnchor list \<Rightarrow> Link list" where
  "extractCurrentLinks pageAnchors = map_values (collectLinks pageAnchors [])"

section \<open>Tree expansion\<close>

text \<open>
  The options of the tree scraper that reach the expansion and the cache key; \<open>None\<close> is
  an option that was not given.  Numbers are integers.
\<close>

record TreeScraperOptions =
  maxIterations :: "int option"
  clickDelay :: "int option"
  rateLimit :: "int option"
  customSelectors :: "string list option"

text \<open>The constructor puts the defaults under the given options.\<close>

definition TreeScraper_new :: "TreeScraperOptions \<Rightarrow> TreeScraperOptions" where
  "TreeScraper_new options =
     options \<lparr> maxIterations := (case maxIterations options of None \<Rightarrow> Some 10 | Some n \<Rightarrow> Some n),
               clickDelay := (case clickDelay options of None \<Rightarrow> Some 100 | Some n \<Rightarrow> Some n) \<rparr>"

text \<open>\<^verbatim>\<open>n || d\<close> on an optional number: absent and 0 are falsy.\<close>

definition num_or :: "int option \<Rightarrow> int \<Rightarrow> int" where
  "num_or a d = (case a of None \<Rightarrow> d | Some n \<Rightarrow> if n = 0 then d else n)"

definition DEFAULT_SELECTORS :: "string list" where
  "DEFAULT_SELECTORS =
     [''li.directory.collapsed > a'',
      ''li.collapsed > a'',
      ''details summary'',
      ''[data-accordion-trigger]'',
      ''[data-toggle='' @ [dquote] @ ''collapse'' @ [dquote] @ '']'',
      ''.accordion-button'',
      ''.expand-button'',
      ''[role='' @ [dquote] @ ''button'' @ [dquote] @ ''][aria-expanded]'',
      ''button[aria-expanded]'']"

text \<open>
  The live page is a state \<open>'pg\<close> with the operations the expansion calls on it.  An
  operation that can throw yields \<open>Inl\<close> with the message of the error:
  \<^item> \<open>query\<close>: the element handles of \<^verbatim>\<open>page.$$(selector)\<close>;
  \<^item> \<open>getPath\<close>: the structural path that \<^verbatim>\<open>element.evaluate\<close> computes for the identity;
  \<^item> \<open>isVisible\<close>: \<^verbatim>\<open>element.isVisible()\<close>;
  \<^item> \<open>click\<close>: the click through \<^verbatim>\<open>element.evaluate\<close>, with the page after it and \<open>False\<close>
    when it threw;
  \<^item> \<open>waitForTimeout\<close>: the page after the wait and \<open>False\<close> when it threw;
  \<^item> \<open>anchors\<close>: the \<^verbatim>\<open>a[href]\<close> elements that the \<^verbatim>\<open>page.evaluate\<close> of
    \<open>extractCurrentLinks\<close> sees;
  \<^item> \<open>pageContent\<close> and \<open>pageUrl\<close>: \<^verbatim>\<open>page.content()\<close> and \<^verbatim>\<open>page.url()\<close>.

  The \<^verbatim>\<open>try\<close> block of the source holds the click, the three updates of the counters, the
  wait, the re-extraction and the merge: what any of them throws is swallowed and the
  loop goes on with the next element.  A throw of \<open>query\<close>, \<open>getPath\<close>, \<open>isVisible\<close> or
  of the first extraction is outside the block and ends the expansion.  The page changes
  in \<open>click\<close> and \<open>waitForTimeout\<close> only.  Every operation ends, with a value or an
  error; an operation that hangs is not modelled.
\<close>

record ('pg, 'el) PageOps =
  query :: "'pg \<Rightarrow> string \<Rightarrow> string + 'el list"
  getPath :: "'pg \<Rightarrow> 'el \<Rightarrow> string + string"
  isVisible :: "'pg \<Rightarrow> 'el \<Rightarrow> string + bool"
  click :: "'pg \<Rightarrow> 'el \<Rightarrow> 'pg \<times> bool"
  waitForTimeout :: "'pg \<Rightarrow> int \<Rightarrow> 'pg \<times> bool"
  anchors :: "'pg \<Rightarrow> string + DomAnchor list"
  pageContent :: "'pg \<Rightarrow> string + string"
  pageUrl :: "'pg \<Rightarrow> string"

text \<open>
  The variables of one expansion: the page, \<^verbatim>\<open>linkMap\<close>, \<^verbatim>\<open>interactionCount\<close> and
  \<^verbatim>\<open>clickedSelectors\<close> (a \<^verbatim>\<open>Set\<close>, here its elements in insertion order).  Three fields
  record the run and are not variables of the source: \<open>x_attempts\<close> lists every click
  that was tried, with the element identity and whether the click succeeded;
  \<open>x_passes\<close> counts the passes of the outer loop that were started; \<open>x_rounds\<close> lists,
  for every pass that ran to its end, \<^verbatim>\<open>clickedInIteration\<close> and the value of
  \<^verbatim>\<open>consecutiveEmptyIterations\<close> at the end of the pass.
\<close>

record 'pg Expansion =
  x_page :: 'pg
  x_linkMap :: "Link jsmap"
  x_interactionCount :: nat
  x_clicked :: "string list"
  x_attempts :: "(string \<times> bool) list"
  x_passes :: nat
  x_rounds :: "(nat \<times> nat) list"

text \<open>
  How a loop ends: it returns its variables, or an error with the given message leaves
  it, with the variables as they were then.
\<close>

datatype 'a outcome = Returned 'a | Threw string 'a

definition outcome_state :: "'a outcome \<Rightarrow> 'a" where
  "outcome_state r = (case r of Returned a \<Rightarrow> a | Threw msg a \<Rightarrow> a)"

definition set_add :: "string list \<Rightarrow> string \<Rightarrow> string list" where
  "set_add s x = (if x \<in> set s then s else s @ [x])"

text \<open>\<^verbatim>\<open>for (const link of newLinks) linkMap.set(link.href, link)\<close>\<close>

fun mergeLinks :: "Link jsmap \<Rightarrow> Link list \<Rightarrow> Link jsmap" where
  "mergeLinks linkMap [] = linkMap"
| "mergeLinks linkMap (link # links) = mergeLinks (map_set linkMap (l_href link) link) links"

definition elementId :: "string \<Rightarrow> string \<Rightarrow> string" where
  "elementId sel path = sel @ ''::'' @ path"

text \<open>
  The loop over the elements of one selector.  The result carries \<^verbatim>\<open>clickedInIteration\<close>.
  After a click that did not throw, the identity is added, both counters go up, and then
  the wait and the re-extraction run: when both succeed the links are merged and the
  loop ends (\<^verbatim>\<open>break\<close>); when one of them throws the loop goes on with the next element,
  the click already counted and the links not merged.
\<close>

fun tryElements ::
    "('pg, 'el) PageOps \<Rightarrow> int \<Rightarrow> string \<Rightarrow> 'el list \<Rightarrow> 'pg Expansion \<Rightarrow> nat
       \<Rightarrow> ('pg Expansion \<times> nat) outcome" where
  "tryElements ops delay selector [] st clickedInIteration = Returned (st, clickedInIteration)"
| "tryElements ops delay selector (element # elements) st clickedInIteration =
     (case getPath ops (x_page st) element of
        Inl msg \<Rightarrow> Threw msg (st, clickedInIteration)
      | Inr path \<Rightarrow>
         (let eid = elementId selector path
          in if eid \<in> set (x_clicked st)
             then tryElements ops delay selector elements st clickedInIteration
             else case isVisible ops (x_page st) element of
                    Inl msg \<Rightarrow> Threw msg (st, clickedInIteration)
                  | Inr False \<Rightarrow> tryElements ops delay selector elements st clickedInIteration
                  | Inr True \<Rightarrow>
                     (case click ops (x_page st) element of
                        (pg, False) \<Rightarrow>
                          tryElements ops delay selector elements
                            (st \<lparr> x_page := pg, x_attempts := x_attempts st @ [(eid, False)] \<rparr>)
                            clickedInIteration
                      | (pg, True) \<Rightarrow>
                          (let st1 = st \<lparr> x_page := pg,
                                          x_interactionCount := x_interactionCount st + 1,
                                          x_clicked := set_add (x_clicked st) eid,
                                          x_attempts := x_attempts st @ [(eid, True)] \<rparr>
                           in case waitForTimeout ops pg delay of
                                (pg', False) \<Rightarrow>
                                  tryElements ops delay selector elements (st1 \<lparr> x_page := pg' \<rparr>)
                                    (clickedInIteration + 1)
                              | (pg', True) \<Rightarrow>
                                 (case anchors ops pg' of
                                    Inl msg \<Rightarrow>
                                      tryElements ops delay selector elements (st1 \<lparr> x_page := pg' \<rparr>)
                                        (clickedInIteration + 1)
                                  | Inr pageAnchors \<Rightarrow>
                                      Returned
                                        (st1 \<lparr> x_page := pg',
                                               x_linkMap := mergeLinks (x_linkMap st1)
                                                              (extractCurrentLinks pageAnchors) \<rparr>,
                                         clickedInIteration + 1))))))"

text \<open>The loop over the selectors; it ends behind the first selector that clicked.\<close>

fun trySelectors ::
    "('pg, 'el) PageOps \<Rightarrow> int \<Rightarrow> string list \<Rightarrow> 'pg Expansion \<Rightarrow> nat
       \<Rightarrow> ('pg Expansion \<times> nat) outcome" where
  "trySelectors ops delay [] st clickedInIteration = Returned (st, clickedInIteration)"
| "trySelectors ops delay (selector # selectors) st clickedInIteration =
     (case query ops (x_page st) selector of
        Inl msg \<Rightarrow> Threw msg (st, clickedInIteration)
      | Inr elements \<Rightarrow>
         (case tryElements ops delay selector elements st clickedInIteration of
            Threw msg r \<Rightarrow> Threw msg r
          | Returned (st', clickedInIteration') \<Rightarrow>
              if clickedInIteration' > 0 then Returned (st', clickedInIteration')
              else trySelectors ops delay selectors st' clickedInIteration'))"

definition maxConsecutiveEmpty :: nat where
  "maxConsecutiveEmpty = 2"

text \<open>
  The outer \<^verbatim>\<open>for\<close> loop, from the test of \<^verbatim>\<open>iteration\<close> against
  \<^verbatim>\<open>this.options.maxIterations || 10\<close> on.  The wait after a click is
  \<^verbatim>\<open>this.options.clickDelay || 1000\<close>.
\<close>

function expandLoop ::
    "('pg, 'el) PageOps \<Rightarrow> TreeScraperOptions \<Rightarrow> string list \<Rightarrow> nat \<Rightarrow> nat \<Rightarrow> 'pg Expansion
       \<Rightarrow> 'pg Expansion outcome" where
  "expandLoop ops options selectors iteration consecutiveEmptyIterations st =
     (if int iteration < num_or (maxIterations options) 10
      then case trySelectors ops (num_or (clickDelay options) 1000) selectors
                  (st \<lparr> x_passes := x_passes st + 1 \<rparr>) 0 of
             Threw msg (st', clickedInIteration) \<Rightarrow> Threw msg st'
           | Returned (st', clickedInIteration) \<Rightarrow>
               if clickedInIteration = 0
               then (if consecutiveEmptyIterations + 1 \<ge> maxConsecutiveEmpty
                     then Returned
                            (st' \<lparr> x_rounds := x_rounds st' @ [(clickedInIteration, consecutiveEmptyIterations + 1)] \<rparr>)
                     else expandLoop ops options selectors (iteration + 1) (consecutiveEmptyIterations + 1)
                            (st' \<lparr> x_rounds := x_rounds st' @ [(clickedInIteration, consecutiveEmptyIterations + 1)] \<rparr>))
               else expandLoop ops options selectors (iteration + 1) 0
                      (st' \<lparr> x_rounds := x_rounds st' @ [(clickedInIteration, 0)] \<rparr>)
      else Returned st)"
  by pat_completeness auto
termination
  by (relation "measure (\<lambda>(ops, options, selectors, iteration, ce, st).
                  nat (num_or (maxIterations options) 10) - iteration)") auto

declare expandLoop.simps [simp del]

text \<open>
  \<open>TreeScraper.extractLinksWithTreeExpansion\<close> on the options of the instance.  The
  source returns \<^verbatim>\<open>Array.from(linkMap.values())\<close> and \<^verbatim>\<open>interactionCount\<close>; the model
  returns the whole final state, which holds both.
\<close>

definition extractLinksWithTreeExpansion ::
    "('pg, 'el) PageOps \<Rightarrow> TreeScraperOptions \<Rightarrow> 'pg \<Rightarrow> 'pg Expansion outcome" where
  "extractLinksWithTreeExpansion ops options page =
     (let selectors = DEFAULT_SELECTORS @ (case customSelectors options of None \<Rightarrow> [] | Some cs \<Rightarrow> cs);
          st = \<lparr> x_page = page,
                 x_linkMap = [],
                 x_interactionCount = 0,
                 x_clicked = [],
                 x_attempts = [],
                 x_passes = 0,
                 x_rounds = [] \<rparr>
      in case anchors ops page of
           Inl msg \<Rightarrow> Threw msg st
         | Inr initialAnchors \<Rightarrow>
             expandLoop ops options selectors 0 0
               (st \<lparr> x_linkMap := mergeLinks [] (extractCurrentLinks initialAnchors) \<rparr>))"

definition expansion_links :: "'pg Expansion \<Rightarrow> Link list" where
  "expansion_links st = map_values (x_linkMap st)"



section \<open>TreeScraper: cache key and scrape\<close>

text \<open>
  A number in a template literal, for an integer (below \<open>10^21\<close> in magnitude, where
  JavaScript still writes all digits).
\<close>

definition digit_char :: "nat \<Rightarrow> char" where
  "digit_char d = ''0123456789'' ! d"

function show_nat :: "nat \<Rightarrow> string" where
  "show_nat n = (if n < 10 then [digit_char n] else show_nat (n div 10) @ [digit_char (n mod 10)])"
  by pat_completeness auto
termination
  by (relation "measure id") auto

declare show_nat.simps [simp del]

definition show_int :: "int \<Rightarrow> string" where
  "show_int i = (if i < 0 then CHR ''-'' # show_nat (nat (- i)) else show_nat (nat i))"

text \<open>
  \<^verbatim>\<open>encodeURIComponent\<close> on the bytes of the UTF-8 form of the string: the unreserved
  characters stay, every other byte becomes \<^verbatim>\<open>%XX\<close>.
\<close>

definition unreserved :: "char \<Rightarrow> bool" where
  "unreserved c =
     (c \<in> set (''ABCDEFGHIJKLMNOPQRSTUVWXYZabcdefghijklmnopqrstuvwxyz0123456789'' @ ''-_.!~*()'' @ [squote]))"

definition hex_digit :: "nat \<Rightarrow> char" where
  "hex_digit d = ''0123456789ABCDEF'' ! d"

definition encodeChar :: "char \<Rightarrow> string" where
  "encodeChar c =
     (if unreserved c then [c]
      else [CHR ''%'', hex_digit (of_char c div 16), hex_digit (of_char c mod 16)])"

definition encodeURIComponent :: "string \<Rightarrow> string" where
  "encodeURIComponent s = concat (map encodeChar s)"

text \<open>
  \<open>TreeScraper.getCacheKey\<close>; \<open>options\<close> are the options of the instance
  (\<^verbatim>\<open>this.options\<close>), the options of the \<^verbatim>\<open>scrape\<close> call are not read.
\<close>

definition getCacheKey :: "TreeScraperOptions \<Rightarrow> string \<Rightarrow> string" where
  "getCacheKey options url =
     ''tree:'' @ encodeURIComponent url @ '':'' @ show_int (num_or (maxIterations options) 10)
       @ '':'' @ show_int (num_or (clickDelay options) 100)"

text \<open>The options of one \<^verbatim>\<open>scrape\<close> call that the tree scraper reads for the cache.\<close>

record ScrapeOptions =
  o_cache :: "bool option"
  o_cacheExpiry :: "int option"

definition isDownloadError :: "string \<Rightarrow> bool" where
  "isDownloadError errorMessage =
     (str_includes errorMessage ''Download is starting'' \<or>
      str_includes errorMessage ''net::ERR_ABORTED'')"

text \<open>
  What the crawler does with the request, as calls of the two handlers: the request
  handler reaches the expansion on the loaded page, an operation before the expansion
  throws inside the \<^verbatim>\<open>try\<close> block of the handler, or the crawler calls
  \<^verbatim>\<open>failedRequestHandler\<close>.  Each call carries the downloads captured by the time the
  handler reads them.
\<close>

datatype 'pg crawl_event =
    PageHandled 'pg "DownloadInfo list"
  | HandlerThrew string "DownloadInfo list"
  | RequestFailed string "DownloadInfo list"

record handler_vars =
  scrapeResult :: "ScrapeResult option"
  scrapeError :: "string option"

text \<open>The result that the request handler builds behind the expansion.\<close>

definition pageOutcome ::
    "string \<Rightarrow> string \<Rightarrow> 'pg Expansion \<Rightarrow> DownloadInfo list \<Rightarrow> ScrapeResult" where
  "pageOutcome loadedUrl pageHtml x downloads =
     (let links = expansion_links x;
          interactionCount = x_interactionCount x
      in \<lparr> sr_url = loadedUrl,
           sr_content = pageHtml,
           sr_links = links,
           sr_type = Tree,
           sr_confidence = (if interactionCount > 0 then 0.9 else 0.5),
           sr_linkCount = length links,
           sr_interactionCount = interactionCount,
           sr_complete = True,
           sr_isDownload = False,
           sr_downloads = (if downloads \<noteq> [] then Some downloads else None) \<rparr>)"

definition downloadOutcome :: "string \<Rightarrow> DownloadInfo list \<Rightarrow> ScrapeResult" where
  "downloadOutcome requestUrl downloads =
     \<lparr> sr_url = requestUrl,
       sr_content = [],
       sr_links = [],
       sr_type = Tree,
       sr_confidence = 0.8,
       sr_linkCount = 0,
       sr_interactionCount = 0,
       sr_complete = True,
       sr_isDownload = True,
       sr_downloads = Some downloads \<rparr>"

text \<open>The \<^verbatim>\<open>catch\<close> block of the request handler.\<close>

definition caught :: "string \<Rightarrow> string \<Rightarrow> DownloadInfo list \<Rightarrow> handler_vars \<Rightarrow> handler_vars" where
  "caught url errorMessage downloads v =
     (if isDownloadError errorMessage \<and> downloads \<noteq> []
      then v \<lparr> scrapeResult := Some (downloadOutcome url downloads) \<rparr>
      else v \<lparr> scrapeError := Some errorMessage \<rparr>)"

fun handle ::
    "('pg, 'el) PageOps \<Rightarrow> TreeScraperOptions \<Rightarrow> string \<Rightarrow> 'pg crawl_event \<Rightarrow> handler_vars
       \<Rightarrow> handler_vars" where
  "handle ops options url (PageHandled page downloads) v =
     (case extractLinksWithTreeExpansion ops options page of
        Threw errorMessage x \<Rightarrow> caught url errorMessage downloads v
      | Returned x \<Rightarrow>
         (case pageContent ops (x_page x) of
            Inl errorMessage \<Rightarrow> caught url errorMessage downloads v
          | Inr pageHtml \<Rightarrow>
              v \<lparr> scrapeResult := Some (pageOutcome (pageUrl ops (x_page x)) pageHtml x downloads) \<rparr>))"
| "handle ops options url (HandlerThrew errorMessage downloads) v =
     caught url errorMessage downloads v"
| "handle ops options url (RequestFailed errorMessage downloads) v =
     (if isDownloadError errorMessage \<and> downloads \<noteq> []
      then v \<lparr> scrapeResult := Some (downloadOutcome url downloads) \<rparr>
      else v \<lparr> scrapeError := Some (''Failed to scrape '' @ url @ '': '' @ errorMessage) \<rparr>)"

text \<open>
  One call of \<open>scrape\<close>: what it returns or throws, and the calls of \<^verbatim>\<open>cacheAdapter.set\<close>
  it made (key, value, TTL in seconds).
\<close>

record scrape_run =
  returned :: "error + ScrapeResult"
  cacheWrites :: "(string \<times> ScrapeResult \<times> int) list"

definition scrape_failed :: "string \<Rightarrow> scrape_run" where
  "scrape_failed msg =
     \<lparr> returned = Inl (ScrapeError (''Failed to scrape page with TreeScraper: '' @ msg)),
       cacheWrites = [] \<rparr>"

text \<open>
  \<open>TreeScraper.scrape\<close>.  Parameters: the page operations, the options of the instance,
  the crawler (the handler calls it makes for a URL, or the message of the error that
  \<^verbatim>\<open>crawler.run\<close> throws) and the cache content (\<^verbatim>\<open>cacheAdapter.get\<close>).  The rate-limit
  delay and the timeout are not modelled.
\<close>

definition TreeScraper_scrape ::
    "('pg, 'el) PageOps \<Rightarrow> TreeScraperOptions \<Rightarrow> (string \<Rightarrow> string + 'pg crawl_event list)
       \<Rightarrow> (string \<Rightarrow> ScrapeResult option) \<Rightarrow> string \<Rightarrow> ScrapeOptions \<Rightarrow> scrape_run" where
  "TreeScraper_scrape ops options crawl cacheGet url opts =
     (let cache = (o_cache opts \<noteq> Some False);
          cacheExpiry = num_or (o_cacheExpiry opts) 300000;
          cached = (if cache then cacheGet (getCacheKey options url) else None)
      in case cached of
           Some r \<Rightarrow> \<lparr> returned = Inr r, cacheWrites = [] \<rparr>
         | None \<Rightarrow>
            (case crawl url of
               Inl msg \<Rightarrow> scrape_failed msg
             | Inr events \<Rightarrow>
                (let v = foldl (\<lambda>v ev. handle ops options url ev v) 
                           \<lparr> scrapeResult = None, scrapeError = None \<rparr> events
                 in case scrapeError v of
                      Some msg \<Rightarrow> scrape_failed msg
                    | None \<Rightarrow>
                       (case scrapeResult v of
                          None \<Rightarrow> scrape_failed ''Tree scrape failed - no result captured''
                        | Some r \<Rightarrow>
                           \<lparr> returned = Inr r,
                             cacheWrites =
                               (if cache then [(getCacheKey options url, r, cacheExpiry div 1000)]
                                else []) \<rparr>))))"

text \<open>
  Successive calls of \<open>scrape\<close> on one cache.  The cache holds what earlier calls wrote,
  the newest entry first; \<^verbatim>\<open>cacheAdapter.get\<close> finds the newest entry of a key.  Every
  call has its own scraper instance, page behaviour, URL and options, and names the
  keys whose entries it does not find any more (their TTL has run out).
\<close>

record ('pg, 'el) scrape_call =
  c_ops :: "('pg, 'el) PageOps"
  c_instance :: TreeScraperOptions
  c_crawl :: "string \<Rightarrow> string + 'pg crawl_event list"
  c_url :: string
  c_opts :: ScrapeOptions
  c_expired :: "string list"

definition cache_live :: "string list \<Rightarrow> (string \<times> ScrapeResult) list \<Rightarrow> (string \<times> ScrapeResult) list" where
  "cache_live expired store = filter (\<lambda>(k, r). k \<notin> set expired) store"

definition cache_written :: "scrape_run \<Rightarrow> (string \<times> ScrapeResult) list" where
  "cache_written run = map (\<lambda>(k, r, ttl). (k, r)) (cacheWrites run)"

fun scrape_calls ::
    "(string \<times> ScrapeResult) list \<Rightarrow> ('pg, 'el) scrape_call list \<Rightarrow> scrape_run list" where
  "scrape_calls store [] = []"
| "scrape_calls store (c # cs) =
     (let live = cache_live (c_expired c) store;
          run = TreeScraper_scrape (c_ops c) (c_instance c) (c_crawl c) (map_of live) (c_url c) (c_opts c)
      in run # scrape_calls (cache_written run @ live) cs)"

section \<open>Words matched by a pattern\<close>

text \<open>
  The specification side of the matcher: the words a pattern matches, and the bodies of
  its capture groups.  Every state that \<open>rx_run\<close> lists has consumed a word of \<open>lang\<close>,
  and a captured text is a word of a group body.
\<close>

fun lang :: "rx \<Rightarrow> string set" where
  "lang (Lit l) = {l}"
| "lang (LitI l) = {w. toLowerCase w = toLowerCase l}"
| "lang (Cls p) = {[x] | x. p x}"
| "lang (Star p) = {w. \<forall>x\<in>set w. p x}"
| "lang (Plus p) = {w. w \<noteq> [] \<and> (\<forall>x\<in>set w. p x)}"
| "lang (Seq a b) = {u @ v | u v. u \<in> lang a \<and> v \<in> lang b}"
| "lang (Alt a b) = lang a \<union> lang b"
| "lang (Grp a) = lang a"

fun grps :: "rx \<Rightarrow> rx set" where
  "grps (Grp a) = insert a (grps a)"
| "grps (Seq a b) = grps a \<union> grps b"
| "grps (Alt a b) = grps a \<union> grps b"
| "grps r = {}"

section \<open>Invariants of a run\<close>



text \<open>
  The two kinds of result that \<open>scrape\<close> builds: the download outcome and the page
  outcome.
\<close>

definition result_ok :: "ScrapeResult \<Rightarrow> bool" where
  "result_ok r \<longleftrightarrow>
     (sr_isDownload r \<and> sr_confidence r = 0.8 \<and> sr_links r = [] \<and> sr_linkCount r = 0 \<and>
      sr_interactionCount r = 0) \<or>
     (\<not> sr_isDownload r \<and> sr_confidence r = (if sr_interactionCount r > 0 then 0.9 else 0.5))"

section \<open>Example inputs\<close>

text \<open>A page with a download-manager marker and a \<^verbatim>\<open>wpdmdl\<close> link.\<close>

definition ex_wpdm_html :: string where
  "ex_wpdm_html =
     ''<a class='' @ [dquote] @ ''wpdm-download-link'' @ [dquote] @ '' href='' @ [dquote]
       @ ''?wpdmdl=17'' @ [dquote] @ ''>get</a>''"

text \<open>A basic scrape of a page with the given content and captured downloads.\<close>

definition ex_scrape :: "string \<Rightarrow> DownloadInfo list option \<Rightarrow> string \<Rightarrow> error + ScrapeResult" where
  "ex_scrape content downloads u =
     Inr \<lparr> sr_url = u, sr_content = content, sr_links = [], sr_type = Basic,
           sr_confidence = 1, sr_linkCount = 0, sr_interactionCount = 0, sr_complete = True,
           sr_isDownload = False, sr_downloads = downloads \<rparr>"

text \<open>A parser for the examples: every URL of the examples is on \<^verbatim>\<open>https://x.org\<close>.\<close>

definition ex_parse :: url_parser where
  "ex_parse url = Some \<lparr> protocol = ''https:'', host = ''x.org'' \<rparr>"

text \<open>A page with one quoted link.\<close>

definition ex_href_html :: "string \<Rightarrow> string" where
  "ex_href_html h = ''<a href='' @ [dquote] @ h @ [dquote] @ ''>doc</a>''"

text \<open>A captured PDF download.\<close>

definition ex_download :: DownloadInfo where
  "ex_download = \<lparr> dl_url = Some ''https://x.org/f/a.pdf'', dl_filename = Some ''a.pdf'',
                    dl_content = Some ''%PDF-1.4'', dl_error = None \<rparr>"

text \<open>
  The page \<^verbatim>\<open><a href="/a">A</a><a href="/a">A2</a>\<close> and the two elements that the selection
  \<^verbatim>\<open>$('a')\<close> yields for it.
\<close>

definition ex_two_links_html :: string where
  "ex_two_links_html =
     ''<a href='' @ [dquote] @ ''/a'' @ [dquote] @ ''>A</a><a href='' @ [dquote] @ ''/a''
       @ [dquote] @ ''>A2</a>''"

definition ex_static_anchor :: "string \<Rightarrow> string \<Rightarrow> Anchor" where
  "ex_static_anchor h t =
     \<lparr> a_href = Some h, a_text = t, a_title = None, a_ariaLabel = None, a_rel = None,
       a_target = None, a_class = None \<rparr>"

definition ex_select_a :: "string \<Rightarrow> Anchor list" where
  "ex_select_a html =
     (if html = ex_two_links_html then [ex_static_anchor ''/a'' ''A'', ex_static_anchor ''/a'' ''A2'']
      else [])"

definition ex_link :: "string \<Rightarrow> string \<Rightarrow> Link" where
  "ex_link h t =
     \<lparr> l_href = h, l_text = t, l_title = None, l_ariaLabel = None, l_rel = None,
       l_target = None, l_classes = None \<rparr>"

text \<open>
  A page for the examples.  The page state counts the successful clicks.  The selector
  \<^verbatim>\<open>details summary\<close> matches the elements \<open>0, ..., min pg (depth - 1)\<close>: a click
  reveals the next one, up to \<open>depth\<close> elements.  A click on an element of \<open>failing\<close>
  throws.  The page shows one link per revealed level and a link \<^verbatim>\<open>https://x.org/a\<close>
  whose text is \<^verbatim>\<open>A\<close> before the first click and \<^verbatim>\<open>A2\<close> after it.
\<close>

definition ex_anchor :: "string \<Rightarrow> string \<Rightarrow> DomAnchor" where
  "ex_anchor h t =
     \<lparr> d_href = h, d_textContent = t, d_title = [], d_ariaLabel = None, d_rel = [],
       d_target = [], d_className = [] \<rparr>"

definition ex_ops :: "nat \<Rightarrow> nat list \<Rightarrow> (nat, nat) PageOps" where
  "ex_ops depth failing =
     \<lparr> query = (\<lambda>pg sel. Inr (if sel = ''details summary'' then [0 ..< min (Suc pg) depth] else [])),
       getPath = (\<lambda>pg e. Inr (''#n'' @ replicate e (CHR ''i''))),
       isVisible = (\<lambda>pg e. Inr True),
       click = (\<lambda>pg e. if e \<in> set failing then (pg, False) else (Suc pg, True)),
       waitForTimeout = (\<lambda>pg d. (pg, True)),
       anchors = (\<lambda>pg. Inr (ex_anchor ''https://x.org/a'' (if pg = 0 then ''A'' else ''A2'') #
                        map (\<lambda>k. ex_anchor (''https://x.org/l'' @ replicate k (CHR ''i'')) ''level'')
                          [0 ..< Suc pg])),
       pageContent = (\<lambda>pg. Inr ''<html><body></body></html>''),
       pageUrl = (\<lambda>pg. ''https://x.org/'') \<rparr>"

definition ex_options :: "int option \<Rightarrow> TreeScraperOptions" where
  "ex_options mi =
     TreeScraper_new \<lparr> maxIterations = mi, clickDelay = None, rateLimit = None,
                       customSelectors = None \<rparr>"

text \<open>
  A page on which only the custom selector \<^verbatim>\<open>.node\<close> matches an expandable element, and
  option records for the instance.
\<close>

definition ex_custom_ops :: "(nat, nat) PageOps" where
  "ex_custom_ops =
     (ex_ops 1 []) \<lparr> query := (\<lambda>pg sel. Inr (if sel = ''.node'' then [0 ..< min (Suc pg) 1] else [])) \<rparr>"

definition ex_tree_options ::
    "int option \<Rightarrow> int option \<Rightarrow> string list option \<Rightarrow> TreeScraperOptions" where
  "ex_tree_options mi cd cs =
     TreeScraper_new \<lparr> maxIterations = mi, clickDelay = cd, rateLimit = None,
                       customSelectors = cs \<rparr>"





text \<open>
  Two calls for one URL: on the first the navigation starts a download, on the second
  the page would load.
\<close>

definition ex_call_download :: "(nat, nat) scrape_call" where
  "ex_call_download =
     \<lparr> c_ops = ex_ops 3 [],
       c_instance = ex_options None,
       c_crawl = (\<lambda>u. Inr [HandlerThrew ''page.waitForLoadState: Download is starting'' [ex_download]]),
       c_url = ''https://x.org/f.pdf'',
       c_opts = \<lparr> o_cache = None, o_cacheExpiry = None \<rparr>,
       c_expired = [] \<rparr>"

definition ex_call_page :: "(nat, nat) scrape_call" where
  "ex_call_page =
     ex_call_download \<lparr> c_crawl := (\<lambda>u. Inr [PageHandled 0 []]) \<rparr>"

section \<open>Facts about the pattern matcher\<close>

lemma take_takeWhile_all: "k \<le> length (takeWhile p s) \<Longrightarrow> \<forall>x\<in>set (take k s). p x"
  by (induction s arbitrary: k) (auto simp: take_Cons split: if_splits nat.splits)

lemma rx_run_sound:
  "(s', c') \<in> set (rx_run r (s, c)) \<Longrightarrow> \<exists>w\<in>lang r. s = w @ s'"
proof (induction r arbitrary: s c s' c')
  case (Lit l)
  then show ?case
    by (auto simp: lit_matches_def split: if_splits) (metis append_take_drop_id)
next
  case (LitI l)
  then show ?case
    by (auto simp: liti_matches_def split: if_splits intro!: exI[of _ "take (length l) s"])
next
  case (Cls p)
  then show ?case by (auto split: list.splits if_splits)
next
  case (Star p)
  then obtain k where k: "k \<le> length (takeWhile p s)" "s' = drop k s"
    by (auto simp del: upt_Suc simp: less_Suc_eq_le)
  then have "\<forall>x\<in>set (take k s). p x" using take_takeWhile_all by blast
  then show ?case using k by (auto intro!: exI[of _ "take k s"])
next
  case (Plus p)
  then obtain k where k: "1 \<le> k" "k \<le> length (takeWhile p s)" "s' = drop k s"
    by (auto simp del: upt_Suc simp: less_Suc_eq_le)
  then have "\<forall>x\<in>set (take k s). p x" using take_takeWhile_all by blast
  moreover have "take k s \<noteq> []" using k by (cases s) auto
  ultimately show ?case using k by (auto intro!: exI[of _ "take k s"])
next
  case (Seq a b)
  then obtain sm cm where m: "(sm, cm) \<in> set (rx_run a (s, c))" "(s', c') \<in> set (rx_run b (sm, cm))"
    by auto
  from Seq.IH(1)[OF m(1)] obtain u where u: "u \<in> lang a" "s = u @ sm" by blast
  from Seq.IH(2)[OF m(2)] obtain v where v: "v \<in> lang b" "sm = v @ s'" by blast
  show ?case using u v by auto
next
  case (Alt a b)
  from Alt.prems have "(s', c') \<in> set (rx_run a (s, c)) \<or> (s', c') \<in> set (rx_run b (s, c))"
    by simp
  then show ?case
  proof
    assume "(s', c') \<in> set (rx_run a (s, c))"
    from Alt.IH(1)[OF this] show ?thesis by auto
  next
    assume "(s', c') \<in> set (rx_run b (s, c))"
    from Alt.IH(2)[OF this] show ?thesis by auto
  qed
next
  case (Grp a)
  then show ?case by auto
qed

lemma rx_run_capture:
  "(s', c') \<in> set (rx_run r (s, c)) \<Longrightarrow> c' = c \<or> (\<exists>G\<in>grps r. \<exists>w\<in>lang G. c' = Some w)"
proof (induction r arbitrary: s c s' c')
  case (Seq a b)
  then obtain sm cm where m: "(sm, cm) \<in> set (rx_run a (s, c))" "(s', c') \<in> set (rx_run b (sm, cm))"
    by auto
  from Seq.IH(1)[OF m(1)] Seq.IH(2)[OF m(2)] show ?case by auto
next
  case (Alt a b)
  from Alt.prems have "(s', c') \<in> set (rx_run a (s, c)) \<or> (s', c') \<in> set (rx_run b (s, c))"
    by simp
  then show ?case
  proof
    assume "(s', c') \<in> set (rx_run a (s, c))"
    from Alt.IH(1)[OF this] show ?thesis by auto
  next
    assume "(s', c') \<in> set (rx_run b (s, c))"
    from Alt.IH(2)[OF this] show ?thesis by auto
  qed
next
  case (Grp a)
  then obtain cx where m: "(s', cx) \<in> set (rx_run a (s, c))" "c' = Some (take (length s - length s') s)"
    by auto
  from rx_run_sound[OF m(1)] obtain w where "w \<in> lang a" "s = w @ s'" by blast
  then show ?case using m(2) by auto
qed (auto split: if_splits list.splits)

lemma rx_match_capture:
  "rx_match r s = Some (Some g) \<Longrightarrow> \<exists>G\<in>grps r. g \<in> lang G"
proof (induction s)
  case Nil
  then obtain s' rest where "rx_run r ([], None) = (s', Some g) # rest"
    by (auto split: list.splits)
  then have "(s', Some g) \<in> set (rx_run r ([], None))" by simp
  from rx_run_capture[OF this] show ?case by auto
next
  case (Cons x xs)
  show ?case
  proof (cases "rx_run r (x # xs, None)")
    case Nil
    then show ?thesis using Cons by simp
  next
    case (Cons st rest)
    then obtain s' where "st = (s', Some g)" using Cons.prems by (cases st) auto
    then have "(s', Some g) \<in> set (rx_run r (x # xs, None))" using Cons by simp
    from rx_run_capture[OF this] show ?thesis by auto
  qed
qed

lemma match1_capture: "match1 r s = Some g \<Longrightarrow> \<exists>G\<in>grps r. g \<in> lang G"
  using rx_match_capture[of r s g] by (auto simp: match1_def split: option.splits)

lemma toLowerChar_nonletter:
  "c \<notin> set ''abcdefghijklmnopqrstuvwxyz'' \<Longrightarrow> toLowerChar x = c \<Longrightarrow> x = c"
  by (auto simp: toLowerChar_def split: if_splits)

lemma lower_dot_pdf: "toLowerCase ''.pdf'' = ''.pdf''"
  by (simp add: toLowerCase_def toLowerChar_def)

lemma pdfLink_has_dot: "match1 pdfLinkRe html = Some g \<Longrightarrow> CHR ''.'' \<in> set g"
proof -
  assume "match1 pdfLinkRe html = Some g"
  from match1_capture[OF this]
  obtain u v w where g: "g = u @ v @ w" "toLowerCase v = ''.pdf''"
    by (auto simp: pdfLinkRe_def lower_dot_pdf)
  then obtain x v' where v: "v = x # v'" "toLowerChar x = CHR ''.''"
    by (cases v) (auto simp: toLowerCase_def)
  have "x = CHR ''.''" by (rule toLowerChar_nonletter[OF _ v(2)]) simp
  then show ?thesis using g v by auto
qed


text \<open>
  The matcher misses no match: it finds a match at a position exactly when a word of the
  pattern starts there, and \<open>rx_match\<close> is \<^verbatim>\<open>null\<close> exactly when no part of the input is a
  word of the pattern.
\<close>

lemma takeWhile_all_prefix:
  "\<forall>x\<in>set w. p x \<Longrightarrow> length w \<le> length (takeWhile p (w @ s))"
  by (induction w) auto

lemma rx_run_complete:
  "w \<in> lang r \<Longrightarrow> \<exists>c'. (s', c') \<in> set (rx_run r (w @ s', c))"
proof (induction r arbitrary: w s' c)
  case (Lit l)
  then show ?case by (simp add: lit_matches_def)
next
  case (LitI l)
  then have e: "toLowerCase w = toLowerCase l" by simp
  then have "length (toLowerCase w) = length (toLowerCase l)" by simp
  then have "length w = length l" by (simp add: toLowerCase_def)
  then show ?case using e by (simp add: liti_matches_def)
next
  case (Cls p)
  then show ?case by auto
next
  case (Star p)
  then have "length w \<le> length (takeWhile p (w @ s'))" by (simp add: takeWhile_all_prefix)
  then have "length w \<in> set (rev [0 ..< Suc (length (takeWhile p (w @ s')))])"
    by (simp del: upt_Suc add: less_Suc_eq_le)
  then have "(drop (length w) (w @ s'), c) \<in> set (rx_run (Star p) (w @ s', c))"
    by (simp only: rx_run.simps set_map image_eqI)
  then show ?case by auto
next
  case (Plus p)
  then have "length w \<le> length (takeWhile p (w @ s'))" "1 \<le> length w"
    by (simp_all add: takeWhile_all_prefix Suc_le_eq)
  then have "length w \<in> set (rev [1 ..< Suc (length (takeWhile p (w @ s')))])"
    by (simp del: upt_Suc add: less_Suc_eq_le)
  then have "(drop (length w) (w @ s'), c) \<in> set (rx_run (Plus p) (w @ s', c))"
    by (simp only: rx_run.simps set_map image_eqI)
  then show ?case by auto
next
  case (Seq a b)
  then obtain u v where w: "w = u @ v" "u \<in> lang a" "v \<in> lang b" by auto
  from Seq.IH(1)[OF w(2), of "v @ s'" c] obtain c1 where 1: "(v @ s', c1) \<in> set (rx_run a (u @ v @ s', c))"
    by blast
  from Seq.IH(2)[OF w(3), of s' c1] obtain c2 where 2: "(s', c2) \<in> set (rx_run b (v @ s', c1))"
    by blast
  show ?case using 1 2 w(1) by (auto intro!: exI[of _ c2] bexI[of _ "(v @ s', c1)"])
next
  case (Alt a b)
  from Alt.prems have "w \<in> lang a \<or> w \<in> lang b" by simp
  then show ?case
  proof
    assume "w \<in> lang a"
    from Alt.IH(1)[OF this, of s' c] show ?thesis by auto
  next
    assume "w \<in> lang b"
    from Alt.IH(2)[OF this, of s' c] show ?thesis by auto
  qed
next
  case (Grp a)
  from Grp.IH[of w s' c] Grp.prems obtain c' where "(s', c') \<in> set (rx_run a (w @ s', c))" by auto
  then have "(\<lambda>(t, c'). (t, Some (take (length (w @ s') - length t) (w @ s')))) (s', c')
               \<in> set (rx_run (Grp a) (w @ s', c))"
    unfolding rx_run.simps set_map by (rule imageI)
  then show ?case by auto
qed

lemma rx_run_empty_iff:
  "rx_run r (s, c) = [] \<longleftrightarrow> \<not> (\<exists>w\<in>lang r. prefix w s)"
proof
  assume e: "rx_run r (s, c) = []"
  show "\<not> (\<exists>w\<in>lang r. prefix w s)"
  proof
    assume "\<exists>w\<in>lang r. prefix w s"
    then obtain w s' where "w \<in> lang r" "s = w @ s'" by (auto simp: prefix_def)
    from rx_run_complete[OF this(1), of s' c] this(2) e show False by simp
  qed
next
  assume n: "\<not> (\<exists>w\<in>lang r. prefix w s)"
  show "rx_run r (s, c) = []"
  proof (rule ccontr)
    assume "rx_run r (s, c) \<noteq> []"
    then obtain s' c' where "(s', c') \<in> set (rx_run r (s, c))"
      by (cases "rx_run r (s, c)") auto
    from rx_run_sound[OF this] n show False by (auto simp: prefix_def)
  qed
qed

lemma rx_match_None_iff:
  "rx_match r s = None \<longleftrightarrow> \<not> (\<exists>w\<in>lang r. sublist w s)"
proof (induction s)
  case Nil
  have "rx_match r [] = None \<longleftrightarrow> rx_run r ([], None) = []"
    by (auto split: list.splits)
  then show ?case by (simp add: rx_run_empty_iff)
next
  case (Cons x xs)
  have "rx_match r (x # xs) = None \<longleftrightarrow> rx_run r (x # xs, None) = [] \<and> rx_match r xs = None"
    by (auto split: list.splits)
  then show ?case using Cons
    by (simp only: rx_run_empty_iff sublist_Cons_right) blast
qed

section \<open>Loop guard of the WordPress extractor\<close>

lemma includes_append: "str_includes s t \<Longrightarrow> str_includes (s @ u) t"
  unfolding str_includes_def
  by (metis sublist_appendI sublist_order.order.trans sublist_append_rightI)

lemma includes_normalizeUrl: "str_includes url t \<Longrightarrow> str_includes (normalizeUrl url) t"
  by (simp add: normalizeUrl_def includes_append)

lemma truthy_None: "\<not> truthy None"
  by (simp add: truthy_def)

text \<open>
  C1.  A URL that contains the marker \<^verbatim>\<open>wpdmdl=\<close> is never resolved again: for every
  HTML content (and every URL parser) \<open>extractWordPressDownloadUrl\<close> returns \<^verbatim>\<open>null\<close>, and
  whatever the scraper returns for that URL, \<open>scrapeDocument\<close> does not classify the
  result as \<^verbatim>\<open>wordpress-pdf-link\<close>.
\<close>

theorem wordpress_marker_never_resolved:
  "str_includes url ''wpdmdl='' \<Longrightarrow>
     extractWordPressDownloadUrl parse url html = Inr None \<and>
     strategy_of (scrapeDocument parse scrape url) \<noteq> Some WordpressPdfLink"
proof
  assume m: "str_includes url ''wpdmdl=''"
  then show "extractWordPressDownloadUrl parse url html = Inr None"
    by (simp add: extractWordPressDownloadUrl_def)
  have "\<And>h. extractWordPressDownloadUrl parse (normalizeUrl url) h = Inr None"
    using includes_normalizeUrl[OF m] by (simp add: extractWordPressDownloadUrl_def)
  then show "strategy_of (scrapeDocument parse scrape url) \<noteq> Some WordpressPdfLink"
    by (cases "scrape (normalizeUrl url)")
       (auto simp: scrapeDocument_def strategy_of_def truthy_None downloadResult_def
          landingResult_def plainResult_def Let_def
          split: option.splits list.splits sum.splits)
qed

theorem wordpress_marker_never_resolved_witness:
  "str_includes ''https://x.org/download/f/?wpdmdl=17'' ''wpdmdl='' \<and>
   extractWordPressDownloadUrl (\<lambda>u. None) ''https://x.org/download/f/?wpdmdl=17'' ex_wpdm_html
     = Inr None \<and>
   strategy_of (scrapeDocument (\<lambda>u. None) (ex_scrape ex_wpdm_html None)
      ''https://x.org/download/f/?wpdmdl=17'') \<noteq> Some WordpressPdfLink"
proof -
  have h: "str_includes ''https://x.org/download/f/?wpdmdl=17'' ''wpdmdl=''"
    by code_simp
  show ?thesis using h wordpress_marker_never_resolved[OF h] by simp
qed

section \<open>Entity decoding and origin prefix\<close>

lemma replaceAll_keeps_char:
  "x \<notin> set pat \<Longrightarrow> x \<in> set s \<Longrightarrow> x \<in> set (replaceAll pat rep s)"
proof (induction pat rep s rule: replaceAll.induct)
  case (1 pat rep)
  then show ?case by simp
next
  case (2 pat rep y ys)
  show ?case
  proof (cases "pat \<noteq> [] \<and> prefix pat (y # ys)")
    case True
    then obtain rest where r: "y # ys = pat @ rest" by (auto simp: prefix_def)
    then have "drop (length pat) (y # ys) = rest" by (metis append_eq_conv_conj)
    moreover have "x \<in> set rest" using r 2(3,4) by (metis Un_iff set_append)
    ultimately show ?thesis using True 2 by simp
  next
    case False
    then show ?thesis using 2 by auto
  qed
qed

lemma replaceAll_slash:
  assumes "pat \<noteq> []" "hd pat \<noteq> CHR ''/''" "rep \<noteq> []" "hd rep \<noteq> CHR ''/''"
  shows "startsWith (replaceAll pat rep s) ''/'' = startsWith s ''/''"
proof (cases s)
  case Nil
  then show ?thesis by simp
next
  case (Cons y ys)
  show ?thesis
  proof (cases "prefix pat (y # ys)")
    case True
    then have "y = hd pat" using assms(1) by (cases pat) auto
    moreover obtain r rs where "rep = r # rs" using assms(3) by (cases rep) auto
    ultimately show ?thesis using True assms Cons by (auto simp: startsWith_def)
  next
    case False
    then show ?thesis using Cons by (simp add: startsWith_def)
  qed
qed

lemma decodeEntities_slash: "startsWith (decodeEntities g) ''/'' = startsWith g ''/''"
  by (simp add: decodeEntities_def replaceAll_slash squote_def dquote_def)

lemma decodeEntities_keeps_dot: "CHR ''.'' \<in> set g \<Longrightarrow> CHR ''.'' \<in> set (decodeEntities g)"
  by (simp add: decodeEntities_def replaceAll_keeps_char)

lemma lang_slash_first:
  "w \<in> lang (Seq (LitI (CHR ''/'' # l)) r) \<Longrightarrow> startsWith w ''/''"
proof -
  assume "w \<in> lang (Seq (LitI (CHR ''/'' # l)) r)"
  then obtain u v where w: "w = u @ v" "toLowerCase u = toLowerCase (CHR ''/'' # l)" by auto
  then obtain x u' where u: "u = x # u'" "toLowerChar x = toLowerChar (CHR ''/'')"
    by (cases u) (auto simp: toLowerCase_def)
  have "toLowerChar (CHR ''/'') = CHR ''/''" by (simp add: toLowerChar_def)
  then have "x = CHR ''/''" using toLowerChar_nonletter[of "CHR ''/''" x] u by simp
  then show ?thesis using w u by (simp add: startsWith_def)
qed

lemma civic_href_slash: "match1 civicDocLinkRe html = Some g \<Longrightarrow> startsWith g ''/''"
  using match1_capture[of civicDocLinkRe html g] lang_slash_first
  by (auto simp: civicDocLinkRe_def simp del: lang.simps)

lemma grps_docExtRe: "grps docExtRe = {}"
  by (simp add: docExtRe_def)

lemma dsGet_href_slash: "match1 dsGetRe html = Some g \<Longrightarrow> startsWith g ''/''"
  using match1_capture[of dsGetRe html g] lang_slash_first
  by (auto simp: dsGetRe_def grps_docExtRe simp del: lang.simps)

lemma dsServices_href_slash: "match1 dsServicesRe html = Some g \<Longrightarrow> startsWith g ''/''"
  using match1_capture[of dsServicesRe html g] lang_slash_first
  by (auto simp: dsServicesRe_def grps_docExtRe simp del: lang.simps)

lemma dsDirect_href_slash: "match1 dsDirectRe html = Some g \<Longrightarrow> startsWith g ''/''"
  using match1_capture[of dsDirectRe html g] lang_slash_first
  by (auto simp: dsDirectRe_def grps_docExtRe simp del: lang.simps)

lemma includes_snoc:
  assumes "str_includes (s @ [c]) t" "t \<noteq> []" "last t \<noteq> c"
  shows "str_includes s t"
proof -
  from assms(1) obtain ps ss where e: "s @ [c] = ps @ t @ ss"
    by (auto simp: str_includes_def sublist_def)
  show ?thesis
  proof (cases ss rule: rev_cases)
    case Nil
    then have "last (s @ [c]) = last t" using e assms(2) by simp
    then show ?thesis using assms(3) by simp
  next
    case (snoc ss' x)
    then have "s @ [c] = (ps @ t @ ss') @ [x]" using e by simp
    then have "s = ps @ t @ ss'" by (simp only: append1_eq_conv)
    then show ?thesis by (auto simp: str_includes_def sublist_def)
  qed
qed

lemma normalizeUrl_marker:
  "str_includes (normalizeUrl url) ''wpdmdl='' = str_includes url ''wpdmdl=''"
proof
  assume "str_includes (normalizeUrl url) ''wpdmdl=''"
  then show "str_includes url ''wpdmdl=''"
    using includes_snoc[of url "CHR ''/''" "''wpdmdl=''"]
    by (auto simp: normalizeUrl_def split: if_splits)
qed (rule includes_normalizeUrl)

lemma truthy_Some: "truthy (Some s) = (s \<noteq> [])"
  by (simp add: truthy_def)

lemma decodeEntities_pdf_nonempty:
  "match1 pdfLinkRe html = Some g \<Longrightarrow> decodeEntities g \<noteq> []"
  using decodeEntities_keeps_dot[OF pdfLink_has_dot] by fastforce

lemma wordpress_pdf_branch:
  assumes "\<not> str_includes url ''wpdmdl=''"
    and "str_includes url ''/download/'' \<or> str_includes html ''wpdm-download-link''
           \<or> str_includes html ''wpdm_view_count''"
    and "match1 wpdmLinkRe html = None"
    and "match1 pdfLinkRe html = Some g"
  shows "extractWordPressDownloadUrl parse url html =
           some_url (absoluteIfSlash parse url (decodeEntities g))"
  using assms by (auto simp: extractWordPressDownloadUrl_def)

text \<open>
  C10, as amended.  For a URL without \<^verbatim>\<open>wpdmdl=\<close> that contains \<^verbatim>\<open>/download/\<close> (or whose
  content has a download-manager marker), when the scrape captured no download, the
  content has no match of the \<^verbatim>\<open>wpdmdl\<close> link pattern and the \<^verbatim>\<open>.pdf\<close> link pattern captures
  \<open>g\<close>: \<open>scrapeDocument\<close> returns strategy \<^verbatim>\<open>wordpress-pdf-link\<close>, \<^verbatim>\<open>isPdf\<close> true,
  \<^verbatim>\<open>complete\<close> false, and as URL the entity-decoded \<open>g\<close>, behind protocol and host of the
  normalised URL when \<open>g\<close> starts with a slash (a \<^verbatim>\<open>TypeError\<close> when that URL does not
  parse).  Nothing asks that the page is a WordPress Download Manager page.
\<close>

theorem wordpress_pdf_fallback:
  assumes "\<not> str_includes url ''wpdmdl=''"
    and "str_includes url ''/download/'' \<or> str_includes (sr_content result) ''wpdm-download-link''
           \<or> str_includes (sr_content result) ''wpdm_view_count''"
    and "scrape (normalizeUrl url) = Inr result"
    and "sr_downloads result = None \<or> sr_downloads result = Some []"
    and "match1 wpdmLinkRe (sr_content result) = None"
    and "match1 pdfLinkRe (sr_content result) = Some g"
  shows "scrapeDocument parse scrape url =
           (if startsWith g ''/''
            then (case parse (normalizeUrl url) of
                    None \<Rightarrow> Inl TypeError
                  | Some u \<Rightarrow>
                      Inr \<lparr> doc_url = protocol u @ ''//'' @ host u @ decodeEntities g,
                            doc_type = ''application/pdf'', doc_isDownload = False,
                            doc_isPdf = True, doc_complete = False,
                            doc_strategy = WordpressPdfLink \<rparr>)
            else Inr \<lparr> doc_url = decodeEntities g,
                       doc_type = ''application/pdf'', doc_isDownload = False,
                       doc_isPdf = True, doc_complete = False,
                       doc_strategy = WordpressPdfLink \<rparr>)"
proof -
  have m: "\<not> str_includes (normalizeUrl url) ''wpdmdl=''"
    using assms(1) by (simp add: normalizeUrl_marker)
  have p: "str_includes (normalizeUrl url) ''/download/'' \<or>
           str_includes (sr_content result) ''wpdm-download-link'' \<or>
           str_includes (sr_content result) ''wpdm_view_count''"
    using assms(2) includes_normalizeUrl by blast
  have wp: "extractWordPressDownloadUrl parse (normalizeUrl url) (sr_content result) =
              some_url (absoluteIfSlash parse (normalizeUrl url) (decodeEntities g))"
    by (rule wordpress_pdf_branch[OF m p assms(5) assms(6)])
  have ne: "decodeEntities g \<noteq> []"
    by (rule decodeEntities_pdf_nonempty[OF assms(6)])
  show ?thesis
    using assms(3) assms(4) wp ne
    by (auto simp: scrapeDocument_def Let_def some_url_def absoluteIfSlash_def withOrigin_def
          decodeEntities_slash truthy_Some landingResult_def
          split: option.splits)
qed


theorem wordpress_pdf_fallback_witness:
  "scrapeDocument ex_parse (ex_scrape (ex_href_html ''/f/a&amp;b.pdf'') None)
       ''https://x.org/download/doc'' =
     Inr \<lparr> doc_url = ''https://x.org/f/a&b.pdf'',
           doc_type = ''application/pdf'', doc_isDownload = False,
           doc_isPdf = True, doc_complete = False, doc_strategy = WordpressPdfLink \<rparr>"
proof -
  let ?url = "''https://x.org/download/doc''"
  let ?res = "\<lparr> sr_url = normalizeUrl ?url, sr_content = ex_href_html ''/f/a&amp;b.pdf'',
      sr_links = [], sr_type = Basic,
      sr_confidence = 1, sr_linkCount = 0, sr_interactionCount = 0, sr_complete = True,
      sr_isDownload = False, sr_downloads = None \<rparr>"
  have 1: "\<not> str_includes ?url ''wpdmdl=''" by code_simp
  have 2: "str_includes ?url ''/download/'' \<or> str_includes (sr_content ?res) ''wpdm-download-link''
           \<or> str_includes (sr_content ?res) ''wpdm_view_count''" by code_simp
  have 3: "ex_scrape (ex_href_html ''/f/a&amp;b.pdf'') None (normalizeUrl ?url) = Inr ?res"
    by (simp add: ex_scrape_def)
  have 4: "sr_downloads ?res = None \<or> sr_downloads ?res = Some []" by simp
  have 5: "match1 wpdmLinkRe (sr_content ?res) = None" by code_simp
  have 6: "match1 pdfLinkRe (sr_content ?res) = Some ''/f/a&amp;b.pdf''" by code_simp
  have 7: "startsWith ''/f/a&amp;b.pdf'' ''/''" by code_simp
  have 8: "decodeEntities ''/f/a&amp;b.pdf'' = ''/f/a&b.pdf''" by code_simp
  show ?thesis
    using wordpress_pdf_fallback[of ?url ?res "ex_scrape (ex_href_html ''/f/a&amp;b.pdf'') None"
        "''/f/a&amp;b.pdf''" ex_parse, OF 1 2 3 4 5 6] 7 8
    by (simp add: ex_parse_def)
qed

text \<open>
  C10 as stated fails when the scrape captured a download: that branch returns first,
  with strategy \<^verbatim>\<open>direct-download\<close>.
\<close>

theorem wordpress_pdf_fallback_counterexample:
  "\<not> str_includes ''https://x.org/download/doc/'' ''wpdmdl='' \<and>
   str_includes ''https://x.org/download/doc/'' ''/download/'' \<and>
   match1 wpdmLinkRe (ex_href_html ''/f/a.pdf'') = None \<and>
   match1 pdfLinkRe (ex_href_html ''/f/a.pdf'') = Some ''/f/a.pdf'' \<and>
   strategy_of (scrapeDocument ex_parse (ex_scrape (ex_href_html ''/f/a.pdf'') (Some [ex_download]))
      ''https://x.org/download/doc/'') = Some DirectDownload"
  by code_simp

lemma some_url_eq: "some_url x = Inr (Some r) \<longleftrightarrow> x = Inr r"
  by (cases x) (auto simp: some_url_def)

lemma withOrigin_eq:
  "withOrigin parse url h = Inr r \<longleftrightarrow> (\<exists>u. parse url = Some u \<and> r = protocol u @ ''//'' @ host u @ h)"
  by (auto simp: withOrigin_def split: option.splits)

text \<open>
  The CivicWeb and the DocuShare extractor never return a relative URL: every href that
  their patterns capture starts with a slash, and every result is the decoded href
  behind protocol and host of the input URL.
\<close>

lemma sibling_extractors_absolute:
  "(extractCivicWebDocumentUrl parse url html = Inr (Some r) \<longrightarrow>
      (\<exists>g u. match1 civicDocLinkRe html = Some g \<and> startsWith g ''/'' \<and>
             parse url = Some u \<and> r = protocol u @ ''//'' @ host u @ decodeEntities g)) \<and>
   (extractDocuShareDocumentUrl parse url html = Inr (Some r) \<longrightarrow>
      (\<exists>g u. (match1 dsGetRe html = Some g \<or> match1 dsServicesRe html = Some g \<or>
              match1 dsDirectRe html = Some g) \<and> startsWith g ''/'' \<and>
             parse url = Some u \<and> r = protocol u @ ''//'' @ host u @ decodeEntities g))"
proof (intro conjI impI)
  assume "extractCivicWebDocumentUrl parse url html = Inr (Some r)"
  then obtain g where "match1 civicDocLinkRe html = Some g"
      "withOrigin parse url (decodeEntities g) = Inr r"
    by (auto simp: extractCivicWebDocumentUrl_def Let_def some_url_eq
          split: if_splits option.splits)
  then show "\<exists>g u. match1 civicDocLinkRe html = Some g \<and> startsWith g ''/'' \<and>
             parse url = Some u \<and> r = protocol u @ ''//'' @ host u @ decodeEntities g"
    using civic_href_slash by (auto simp: withOrigin_eq)
next
  assume "extractDocuShareDocumentUrl parse url html = Inr (Some r)"
  then obtain g where g: "match1 dsGetRe html = Some g \<or> match1 dsServicesRe html = Some g \<or>
              match1 dsDirectRe html = Some g"
      "withOrigin parse url (decodeEntities g) = Inr r"
    by (auto simp: extractDocuShareDocumentUrl_def Let_def some_url_eq
          split: if_splits option.splits)
  then have "startsWith g ''/''"
    using dsGet_href_slash dsServices_href_slash dsDirect_href_slash by blast
  then show "\<exists>g u. (match1 dsGetRe html = Some g \<or> match1 dsServicesRe html = Some g \<or>
              match1 dsDirectRe html = Some g) \<and> startsWith g ''/'' \<and>
             parse url = Some u \<and> r = protocol u @ ''//'' @ host u @ decodeEntities g"
    using g by (auto simp: withOrigin_eq)
qed

text \<open>
  C9.  The WordPress extractor does not resolve every relative href.  Its branch under
  the comment \<^verbatim>\<open>Make absolute if relative\<close> tests \<^verbatim>\<open>startsWith('/')\<close> only: on the page
  \<^verbatim>\<open>https://x.org/download/doc/\<close> the relative hrefs \<^verbatim>\<open>?wpdmdl=99&amp;refresh=5\<close> and
  \<^verbatim>\<open>a.pdf\<close> are returned decoded and not resolved, and the protocol-relative href
  \<^verbatim>\<open>//cdn.y.org/f/a.pdf\<close> is put behind the origin of the page, which names another
  document than the href does.  A root-relative href is resolved.
\<close>

theorem wordpress_relative_href_unresolved:
  "ex_parse ''https://x.org/download/doc/'' = Some \<lparr> protocol = ''https:'', host = ''x.org'' \<rparr> \<and>
   extractWordPressDownloadUrl ex_parse ''https://x.org/download/doc/''
       (ex_href_html ''?wpdmdl=99&amp;refresh=5'') = Inr (Some ''?wpdmdl=99&refresh=5'') \<and>
   \<not> startsWith ''?wpdmdl=99&refresh=5'' ''https://x.org'' \<and>
   extractWordPressDownloadUrl ex_parse ''https://x.org/download/doc/''
       (ex_href_html ''a.pdf'') = Inr (Some ''a.pdf'') \<and>
   extractWordPressDownloadUrl ex_parse ''https://x.org/download/doc/''
       (ex_href_html ''//cdn.y.org/f/a.pdf'') = Inr (Some ''https://x.org//cdn.y.org/f/a.pdf'') \<and>
   extractWordPressDownloadUrl ex_parse ''https://x.org/download/doc/''
       (ex_href_html ''/download/doc/?wpdmdl=99&amp;refresh=5'')
     = Inr (Some ''https://x.org/download/doc/?wpdmdl=99&refresh=5'')"
  by code_simp

section \<open>Termination and rounds of the tree expansion\<close>

subsection \<open>Frame: the inner loops leave the pass count and the round list alone\<close>



subsection \<open>The passes of the outer loop\<close>











subsection \<open>The clicked set\<close>













section \<open>Link maps\<close>

lemma map_of_map_set: "map_of (map_set m k v) = (map_of m)(k \<mapsto> v)"
  by (induction m) (auto simp: fun_eq_iff)

lemma keys_map_set:
  "map fst (map_set m k v) = (if k \<in> set (map fst m) then map fst m else map fst m @ [k])"
proof (induction m)
  case Nil
  show ?case by simp
next
  case (Cons x m)
  obtain k' v' where x: "x = (k', v')" by (cases x)
  show ?case
  proof (cases "k' = k")
    case True
    then show ?thesis using x by simp
  next
    case False
    show ?thesis
    proof (cases "k \<in> set (map fst m)")
      case True
      then show ?thesis using x False Cons by simp
    next
      case False
      then show ?thesis using x \<open>k' \<noteq> k\<close> Cons by simp
    qed
  qed
qed

lemma map_of_mergeLinks:
  "map_of (mergeLinks m newLinks) = map_of m ++ map_of (rev (map (\<lambda>l. (l_href l, l)) newLinks))"
proof (induction newLinks arbitrary: m)
  case Nil
  then show ?case by simp
next
  case (Cons l ls)
  have "map_of (mergeLinks m (l # ls)) =
          map_of (map_set m (l_href l) l) ++ map_of (rev (map (\<lambda>l. (l_href l, l)) ls))"
    by (simp add: Cons)
  also have "\<dots> = (map_of m)(l_href l \<mapsto> l) ++ map_of (rev (map (\<lambda>l. (l_href l, l)) ls))"
    by (simp only: map_of_map_set)
  also have "\<dots> = map_of m ++ (map_of [(l_href l, l)] ++ map_of (rev (map (\<lambda>l. (l_href l, l)) ls)))"
    by (simp add: fun_eq_iff map_add_def split: option.splits)
  also have "\<dots> = map_of m ++ map_of (rev (map (\<lambda>l. (l_href l, l)) (l # ls)))"
    by (simp del: map_of.simps)
  finally show ?case .
qed

lemma keys_mergeLinks: "prefix (map fst m) (map fst (mergeLinks m newLinks))"
proof (induction newLinks arbitrary: m)
  case Nil
  then show ?case by simp
next
  case (Cons l ls)
  have "prefix (map fst m) (map fst (map_set m (l_href l) l))"
    by (simp add: keys_map_set)
  then show ?case using Cons[of "map_set m (l_href l) l"] by (auto intro: prefix_order.order_trans simp del: prefix_code)
qed

text \<open>
  C4, as amended.  Merging the links of a later pass into the link map keeps the position
  of every href that is present (the old keys are a prefix of the new keys) and keeps the
  entry of every href that the pass does not contain, but it replaces the entry of every
  href that the pass contains by the link of that pass.
\<close>

theorem merge_replaces_metadata:
  "(\<forall>l \<in> set newLinks. distinct (map l_href newLinks) \<longrightarrow>
       map_of (mergeLinks m newLinks) (l_href l) = Some l) \<and>
   (\<forall>h. h \<notin> set (map l_href newLinks) \<longrightarrow> map_of (mergeLinks m newLinks) h = map_of m h) \<and>
   prefix (map fst m) (map fst (mergeLinks m newLinks))"
proof (intro conjI ballI allI impI)
  fix l assume l: "l \<in> set newLinks" and d: "distinct (map l_href newLinks)"
  have "distinct (map fst (rev (map (\<lambda>l. (l_href l, l)) newLinks)))"
    using d by (simp add: rev_map[symmetric] comp_def)
  moreover have "(l_href l, l) \<in> set (rev (map (\<lambda>l. (l_href l, l)) newLinks))" using l by auto
  ultimately have "map_of (rev (map (\<lambda>l. (l_href l, l)) newLinks)) (l_href l) = Some l"
    by (rule map_of_is_SomeI)
  then show "map_of (mergeLinks m newLinks) (l_href l) = Some l"
    by (simp add: map_of_mergeLinks)
next
  fix h assume "h \<notin> set (map l_href newLinks)"
  then have "map_of (rev (map (\<lambda>l. (l_href l, l)) newLinks)) h = None"
    by (simp add: map_of_eq_None_iff image_iff comp_def)
  then show "map_of (mergeLinks m newLinks) h = map_of m h"
    by (simp add: map_of_mergeLinks map_add_def)
next
  show "prefix (map fst m) (map fst (mergeLinks m newLinks))" by (rule keys_mergeLinks)
qed

subsection \<open>One extraction pass\<close>

lemma collectLinks_keys_distinct:
  "distinct (map fst m) \<Longrightarrow> distinct (map fst (collectLinks as m))"
  by (induction as arbitrary: m) (auto simp: keys_map_set map_has_def)

lemma map_set_href:
  "\<forall>(k, l) \<in> set m. l_href l = k \<Longrightarrow> l_href v = k0 \<Longrightarrow>
     \<forall>(k, l) \<in> set (map_set m k0 v). l_href l = k"
  by (induction m) (auto split: if_splits)

lemma collectLinks_href:
  "\<forall>(k, l) \<in> set m. l_href l = k \<Longrightarrow> \<forall>(k, l) \<in> set (collectLinks as m). l_href l = k"
proof (induction as arbitrary: m)
  case Nil
  then show ?case by simp
next
  case (Cons a as)
  have "\<forall>(k, l) \<in> set (map_set m (d_href a) (browserLink a)). l_href l = k"
    by (rule map_set_href[OF Cons.prems]) (simp add: browserLink_def)
  then show ?case using Cons by simp
qed

lemma map_of_collectLinks:
  "map_of (collectLinks as m) h =
     (case map_of m h of
        Some l \<Rightarrow> Some l
      | None \<Rightarrow> map_option browserLink (find (\<lambda>a. d_href a = h) as))"
proof (induction as arbitrary: m)
  case Nil
  then show ?case by (simp split: option.splits)
next
  case (Cons a as)
  show ?case
  proof (cases "map_has m (d_href a)")
    case True
    then obtain l where "map_of m (d_href a) = Some l"
      by (auto simp: map_has_def) (metis map_of_eq_None_iff not_None_eq image_eqI fst_conv)
    then show ?thesis using True Cons[of m] by (auto split: option.splits)
  next
    case False
    then have "map_of m (d_href a) = None"
      by (simp add: map_has_def map_of_eq_None_iff)
    then show ?thesis using False Cons[of "map_set m (d_href a) (browserLink a)"]
      by (auto simp: map_of_map_set split: option.splits)
  qed
qed

lemma keyed_links:
  assumes "\<forall>(k, l) \<in> set m. l_href l = k"
  shows "map (\<lambda>l. (l_href l, l)) (map snd m) = m"
  using assms by (induction m) auto

text \<open>
  C3, as amended.  One pass of \<open>extractCurrentLinks\<close> over the live page returns at most
  one link per href, and the link of an href is built from the first element with that
  href.  \<open>DomAdapter.extractLinks\<close> returns one link for every element with a non-empty
  href, in document order, duplicates included.
\<close>

theorem browser_pass_first_wins:
  "distinct (map l_href (extractCurrentLinks pageAnchors)) \<and>
   (\<forall>h. map_of (map (\<lambda>l. (l_href l, l)) (extractCurrentLinks pageAnchors)) h =
          map_option browserLink (find (\<lambda>a. d_href a = h) pageAnchors)) \<and>
   map l_href (DomAdapter_extractLinks select_a html) =
     filter (\<lambda>h. h \<noteq> []) (List.map_filter a_href (select_a html))"
proof (intro conjI allI)
  have k: "\<forall>(k, l) \<in> set (collectLinks pageAnchors []). l_href l = k"
    by (rule collectLinks_href) simp
  have e: "map (\<lambda>l. (l_href l, l)) (extractCurrentLinks pageAnchors) = collectLinks pageAnchors []"
    unfolding extractCurrentLinks_def map_values_def by (rule keyed_links[OF k])
  have "map l_href (extractCurrentLinks pageAnchors) = map fst (collectLinks pageAnchors [])"
    using arg_cong[OF e, of "map fst"] by (simp add: comp_def)
  then show "distinct (map l_href (extractCurrentLinks pageAnchors))"
    using collectLinks_keys_distinct[of "[]" pageAnchors] by simp
  fix h
  show "map_of (map (\<lambda>l. (l_href l, l)) (extractCurrentLinks pageAnchors)) h =
          map_option browserLink (find (\<lambda>a. d_href a = h) pageAnchors)"
    unfolding e by (simp add: map_of_collectLinks)
next
  have "\<And>acc. map l_href (pushLinks as acc) =
          map l_href acc @ filter (\<lambda>h. h \<noteq> []) (List.map_filter a_href as)" for as
    by (induction as) (auto simp: List.map_filter_simps domLink_def split: option.splits)
  then show "map l_href (DomAdapter_extractLinks select_a html) =
     filter (\<lambda>h. h \<noteq> []) (List.map_filter a_href (select_a html))"
    by (simp add: DomAdapter_extractLinks_def)
qed

theorem browser_pass_first_wins_witness:
  "extractCurrentLinks [ex_anchor ''https://x.org/a'' ''A'', ex_anchor ''https://x.org/a'' ''A2'']
     = [ex_link ''https://x.org/a'' ''A''] \<and>
   map_of (map (\<lambda>l. (l_href l, l))
       (extractCurrentLinks [ex_anchor ''https://x.org/a'' ''A'', ex_anchor ''https://x.org/a'' ''A2'']))
     ''https://x.org/a'' = Some (browserLink (ex_anchor ''https://x.org/a'' ''A''))"
proof -
  have f: "find (\<lambda>a. d_href a = ''https://x.org/a'')
             [ex_anchor ''https://x.org/a'' ''A'', ex_anchor ''https://x.org/a'' ''A2'']
           = Some (ex_anchor ''https://x.org/a'' ''A'')"
    by (simp add: ex_anchor_def)
  have e: "extractCurrentLinks [ex_anchor ''https://x.org/a'' ''A'', ex_anchor ''https://x.org/a'' ''A2'']
     = [ex_link ''https://x.org/a'' ''A'']"
    by code_simp
  from browser_pass_first_wins[of "[ex_anchor ''https://x.org/a'' ''A'', ex_anchor ''https://x.org/a'' ''A2'']"]
  have "map_of (map (\<lambda>l. (l_href l, l))
       (extractCurrentLinks [ex_anchor ''https://x.org/a'' ''A'', ex_anchor ''https://x.org/a'' ''A2'']))
     ''https://x.org/a'' = map_option browserLink (find (\<lambda>a. d_href a = ''https://x.org/a'')
             [ex_anchor ''https://x.org/a'' ''A'', ex_anchor ''https://x.org/a'' ''A2''])"
    by blast
  then show ?thesis using e unfolding f by simp
qed

text \<open>
  C3 as stated fails for \<open>DomAdapter.extractLinks\<close>: the page of the claim yields two links
  with href \<^verbatim>\<open>/a\<close>.
\<close>

theorem static_pass_keeps_duplicates_counterexample:
  "DomAdapter_extractLinks ex_select_a ex_two_links_html = [ex_link ''/a'' ''A'', ex_link ''/a'' ''A2''] \<and>
   \<not> distinct (map l_href (DomAdapter_extractLinks ex_select_a ex_two_links_html))"
  by code_simp

theorem merge_replaces_metadata_witness:
  "ex_link ''/a'' ''A2'' \<in> set [ex_link ''/a'' ''A2''] \<and>
   distinct (map l_href [ex_link ''/a'' ''A2'']) \<and>
   ''/b'' \<notin> set (map l_href [ex_link ''/a'' ''A2'']) \<and>
   map_of (mergeLinks [(''/a'', ex_link ''/a'' ''A''), (''/b'', ex_link ''/b'' ''B'')] [ex_link ''/a'' ''A2''])
      ''/a'' = Some (ex_link ''/a'' ''A2'') \<and>
   map_of (mergeLinks [(''/a'', ex_link ''/a'' ''A''), (''/b'', ex_link ''/b'' ''B'')] [ex_link ''/a'' ''A2''])
      ''/b'' = Some (ex_link ''/b'' ''B'')"
proof -
  let ?m = "[(''/a'', ex_link ''/a'' ''A''), (''/b'', ex_link ''/b'' ''B'')]"
  let ?n = "[ex_link ''/a'' ''A2'']"
  have 1: "ex_link ''/a'' ''A2'' \<in> set ?n" by simp
  have 2: "distinct (map l_href ?n)" by simp
  have 3: "''/b'' \<notin> set (map l_href ?n)" by (simp add: ex_link_def)
  have 4: "l_href (ex_link ''/a'' ''A2'') = ''/a''" by (simp add: ex_link_def)
  from merge_replaces_metadata[of ?n ?m] 1 2
  have a: "map_of (mergeLinks ?m ?n) (l_href (ex_link ''/a'' ''A2'')) = Some (ex_link ''/a'' ''A2'')"
    by blast
  from merge_replaces_metadata[of ?n ?m] 3
  have b: "map_of (mergeLinks ?m ?n) ''/b'' = map_of ?m ''/b''" by blast
  show ?thesis using 1 2 3 a b unfolding 4 by simp
qed

text \<open>
  C4 as stated fails: the first pass stores text \<^verbatim>\<open>A\<close> for \<^verbatim>\<open>https://x.org/a\<close>, the pass
  after the click overwrites it with \<^verbatim>\<open>A2\<close>.
\<close>

theorem merge_first_wins_counterexample:
  "anchors (ex_ops 1 []) 0 =
     Inr [ex_anchor ''https://x.org/a'' ''A'', ex_anchor ''https://x.org/l'' ''level''] \<and>
   map (\<lambda>l. (l_href l, l_text l))
     (extractCurrentLinks [ex_anchor ''https://x.org/a'' ''A'', ex_anchor ''https://x.org/l'' ''level'']) =
     [(''https://x.org/a'', ''A''), (''https://x.org/l'', ''level'')] \<and>
   map (\<lambda>l. (l_href l, l_text l))
     (expansion_links (outcome_state (extractLinksWithTreeExpansion (ex_ops 1 []) (ex_options None) 0))) =
     [(''https://x.org/a'', ''A2''), (''https://x.org/l'', ''level''), (''https://x.org/li'', ''level'')]"
  by code_simp

section \<open>Cache key\<close>

lemma digit_char_lt10: "d < 10 \<Longrightarrow> digit_char d \<in> set ''0123456789''"
  unfolding digit_char_def by (rule nth_mem) simp

lemma digit_char_inj: "a < 10 \<Longrightarrow> b < 10 \<Longrightarrow> digit_char a = digit_char b \<Longrightarrow> a = b"
proof -
  assume a: "a < 10" and b: "b < 10" and e: "digit_char a = digit_char b"
  have d: "distinct ''0123456789''" by simp
  have "a < length ''0123456789''" "b < length ''0123456789''" using a b by simp_all
  then show "a = b" using e d unfolding digit_char_def by (simp only: nth_eq_iff_index_eq)
qed

lemma show_nat_nonempty: "show_nat n \<noteq> []"
  by (subst show_nat.simps) simp

lemma show_nat_digits: "set (show_nat n) \<subseteq> set ''0123456789''"
proof (induction n rule: show_nat.induct)
  case (1 n)
  show ?case
  proof (cases "n < 10")
    case True
    then show ?thesis using digit_char_lt10[of n] by (subst show_nat.simps) simp
  next
    case False
    have "n mod 10 < 10" by simp
    then have "digit_char (n mod 10) \<in> set ''0123456789''" by (rule digit_char_lt10)
    then show ?thesis using False 1 by (subst show_nat.simps) simp
  qed
qed

lemma show_nat_inj: "show_nat n = show_nat m \<Longrightarrow> n = m"
proof (induction n arbitrary: m rule: show_nat.induct)
  case (1 n)
  show ?case
  proof (cases "n < 10")
    case n: True
    show ?thesis
    proof (cases "m < 10")
      case True
      have "show_nat n = [digit_char n]" using n by (subst show_nat.simps) simp
      moreover have "show_nat m = [digit_char m]" using True by (subst show_nat.simps) simp
      ultimately have "digit_char n = digit_char m" using 1(2) by simp
      then show ?thesis using n True by (rule digit_char_inj[rotated 2])
    next
      case False
      then have "show_nat m = show_nat (m div 10) @ [digit_char (m mod 10)]"
        by (subst show_nat.simps) simp
      moreover have "show_nat n = [digit_char n]" using n by (subst show_nat.simps) simp
      ultimately have "show_nat (m div 10) = []" using 1(2) by simp
      then show ?thesis using show_nat_nonempty by blast
    qed
  next
    case n: False
    then have sn: "show_nat n = show_nat (n div 10) @ [digit_char (n mod 10)]"
      by (subst show_nat.simps) simp
    show ?thesis
    proof (cases "m < 10")
      case True
      then have "show_nat m = [digit_char m]" by (subst show_nat.simps) simp
      then have "show_nat (n div 10) = []" using sn 1(2) by simp
      then show ?thesis using show_nat_nonempty by blast
    next
      case False
      then have sm: "show_nat m = show_nat (m div 10) @ [digit_char (m mod 10)]"
        by (subst show_nat.simps) simp
      from sn sm 1(2) have e: "show_nat (n div 10) = show_nat (m div 10)"
        and d: "digit_char (n mod 10) = digit_char (m mod 10)" by simp_all
      have q: "n div 10 = m div 10" using 1(1)[OF n e] .
      have r: "n mod 10 = m mod 10" using digit_char_inj[OF _ _ d] by simp
      have "n = n div 10 * 10 + n mod 10" by (simp only: div_mult_mod_eq)
      also have "\<dots> = m div 10 * 10 + m mod 10" by (simp only: q r)
      also have "\<dots> = m" by (simp only: div_mult_mod_eq)
      finally show ?thesis .
    qed
  qed
qed

lemma show_int_inj: "show_int a = show_int b \<Longrightarrow> a = b"
proof -
  assume e: "show_int a = show_int b"
  have nd: "\<And>n. hd (show_nat n) \<noteq> CHR ''-''"
  proof -
    fix n
    have "hd (show_nat n) \<in> set (show_nat n)" using show_nat_nonempty by simp
    then have "hd (show_nat n) \<in> set ''0123456789''" using show_nat_digits by blast
    then show "hd (show_nat n) \<noteq> CHR ''-''" by auto
  qed
  show "a = b"
  proof (cases "a < 0")
    case a: True
    show ?thesis
    proof (cases "b < 0")
      case True
      then have "show_nat (nat (- a)) = show_nat (nat (- b))" using a e by (simp add: show_int_def)
      then have "nat (- a) = nat (- b)" by (rule show_nat_inj)
      then show ?thesis using a True by linarith
    next
      case False
      then have "CHR ''-'' # show_nat (nat (- a)) = show_nat (nat b)" using a e by (simp add: show_int_def)
      then have "hd (show_nat (nat b)) = CHR ''-''" by (metis list.sel(1))
      then show ?thesis using nd by blast
    qed
  next
    case a: False
    show ?thesis
    proof (cases "b < 0")
      case True
      then have "show_nat (nat a) = CHR ''-'' # show_nat (nat (- b))" using a e by (simp add: show_int_def)
      then have "hd (show_nat (nat a)) = CHR ''-''" by (metis list.sel(1))
      then show ?thesis using nd by blast
    next
      case False
      then have "show_nat (nat a) = show_nat (nat b)" using a e by (simp add: show_int_def)
      then have "nat a = nat b" by (rule show_nat_inj)
      then show ?thesis using a False by linarith
    qed
  qed
qed

lemma show_int_no_colon: "CHR '':'' \<notin> set (show_int a)"
proof -
  have "CHR '':'' \<notin> set (show_nat n)" for n using show_nat_digits[of n] by auto
  then show ?thesis by (simp add: show_int_def)
qed

lemma hex_digit_lt16: "d < 16 \<Longrightarrow> hex_digit d \<in> set ''0123456789ABCDEF''"
  unfolding hex_digit_def by (rule nth_mem) simp

lemma hex_digit_inj: "a < 16 \<Longrightarrow> b < 16 \<Longrightarrow> hex_digit a = hex_digit b \<Longrightarrow> a = b"
proof -
  assume a: "a < 16" and b: "b < 16" and e: "hex_digit a = hex_digit b"
  have d: "distinct ''0123456789ABCDEF''" by simp
  have "a < length ''0123456789ABCDEF''" "b < length ''0123456789ABCDEF''" using a b by simp_all
  then show "a = b" using e d unfolding hex_digit_def by (simp only: nth_eq_iff_index_eq)
qed

lemma percent_reserved: "\<not> unreserved (CHR ''%'')"
  by (simp add: unreserved_def squote_def)

lemma colon_reserved: "\<not> unreserved (CHR '':'')"
  by (simp add: unreserved_def squote_def)

lemma encodeChar_no_colon: "CHR '':'' \<notin> set (encodeChar c)"
proof (cases "unreserved c")
  case True
  then show ?thesis using colon_reserved by (auto simp: encodeChar_def)
next
  case False
  have "(of_char c :: nat) div 16 < 16" using nat_of_char_less_256[of c]
    by (simp add: less_mult_imp_div_less)
  then have a: "hex_digit (of_char c div 16) \<in> set ''0123456789ABCDEF''" by (rule hex_digit_lt16)
  have "(of_char c :: nat) mod 16 < 16" by simp
  then have b: "hex_digit (of_char c mod 16) \<in> set ''0123456789ABCDEF''" by (rule hex_digit_lt16)
  show ?thesis using False a b by (auto simp: encodeChar_def)
qed

lemma encodeURIComponent_no_colon: "CHR '':'' \<notin> set (encodeURIComponent s)"
  using encodeChar_no_colon by (auto simp: encodeURIComponent_def)

lemma encodeChar_inj_prefix:
  "encodeChar c @ r = encodeChar c' @ r' \<Longrightarrow> c = c' \<and> r = r'"
proof (cases "unreserved c")
  case c: True
  show "encodeChar c @ r = encodeChar c' @ r' \<Longrightarrow> c = c' \<and> r = r'"
  proof (cases "unreserved c'")
    case True
    then show "encodeChar c @ r = encodeChar c' @ r' \<Longrightarrow> c = c' \<and> r = r'"
      using c by (simp add: encodeChar_def)
  next
    case False
    then show "encodeChar c @ r = encodeChar c' @ r' \<Longrightarrow> c = c' \<and> r = r'"
      using c percent_reserved by (auto simp: encodeChar_def)
  qed
next
  case c: False
  show "encodeChar c @ r = encodeChar c' @ r' \<Longrightarrow> c = c' \<and> r = r'"
  proof (cases "unreserved c'")
    case True
    then show "encodeChar c @ r = encodeChar c' @ r' \<Longrightarrow> c = c' \<and> r = r'"
      using c percent_reserved by (auto simp: encodeChar_def)
  next
    case False
    assume "encodeChar c @ r = encodeChar c' @ r'"
    then have h: "hex_digit (of_char c div 16) = hex_digit (of_char c' div 16)"
        "hex_digit (of_char c mod 16) = hex_digit (of_char c' mod 16)" and r: "r = r'"
      using c False by (simp_all add: encodeChar_def)
    have l: "(of_char c :: nat) div 16 < 16" "(of_char c' :: nat) div 16 < 16"
      using nat_of_char_less_256[of c] nat_of_char_less_256[of c'] by (simp_all add: less_mult_imp_div_less)
    have q: "(of_char c :: nat) div 16 = of_char c' div 16" using hex_digit_inj[OF l h(1)] .
    have m: "(of_char c :: nat) mod 16 = of_char c' mod 16"
      using hex_digit_inj[OF _ _ h(2)] by simp
    have "(of_char c :: nat) = of_char c div 16 * 16 + of_char c mod 16"
      by (simp only: div_mult_mod_eq)
    also have "\<dots> = of_char c' div 16 * 16 + of_char c' mod 16" by (simp only: q m)
    also have "\<dots> = of_char c'" by (simp only: div_mult_mod_eq)
    finally have "(of_char c :: nat) = of_char c'" .
    then show "c = c' \<and> r = r'" using r by simp
  qed
qed

lemma encodeChar_nonempty: "encodeChar c \<noteq> []"
  by (simp add: encodeChar_def)

lemma encodeURIComponent_inj: "encodeURIComponent s = encodeURIComponent t \<Longrightarrow> s = t"
proof (induction s arbitrary: t)
  case Nil
  then show ?case using encodeChar_nonempty by (cases t) (auto simp: encodeURIComponent_def)
next
  case (Cons c s)
  show ?case
  proof (cases t)
    case Nil
    then show ?thesis using Cons.prems encodeChar_nonempty by (auto simp: encodeURIComponent_def)
  next
    case (Cons c' t')
    then have "encodeChar c @ encodeURIComponent s = encodeChar c' @ encodeURIComponent t'"
      using Cons.prems by (simp add: encodeURIComponent_def)
    from encodeChar_inj_prefix[OF this] Cons.IH[of t'] Cons show ?thesis by simp
  qed
qed

lemma split_at_colon:
  assumes "CHR '':'' \<notin> set x" "CHR '':'' \<notin> set x'" "x @ CHR '':'' # r = x' @ CHR '':'' # r'"
  shows "x = x' \<and> r = r'"
proof -
  have tw: "\<And>y s. CHR '':'' \<notin> set y \<Longrightarrow> takeWhile (\<lambda>c. c \<noteq> CHR '':'') (y @ CHR '':'' # s) = y"
  proof -
    fix y :: string and s
    assume "CHR '':'' \<notin> set y"
    then show "takeWhile (\<lambda>c. c \<noteq> CHR '':'') (y @ CHR '':'' # s) = y"
      by (induction y) auto
  qed
  have "takeWhile (\<lambda>c. c \<noteq> CHR '':'') (x @ CHR '':'' # r) = x"
    using assms(1) by (rule tw)
  moreover have "takeWhile (\<lambda>c. c \<noteq> CHR '':'') (x' @ CHR '':'' # r') = x'"
    using assms(2) by (rule tw)
  ultimately have "x = x'" using assms(3) by simp
  then show ?thesis using assms(3) by simp
qed

text \<open>
  C8, as amended.  The cache key is a function of the URL and of the instance options
  \<^verbatim>\<open>maxIterations || 10\<close> and \<^verbatim>\<open>clickDelay || 100\<close>, and it is injective in these three:
  two keys are equal exactly when the URLs and both numbers are equal.  No other option
  (\<^verbatim>\<open>customSelectors\<close>, \<^verbatim>\<open>rateLimit\<close>, the options of the \<^verbatim>\<open>scrape\<close> call) enters the key.
\<close>

theorem cache_key_injective:
  "getCacheKey o1 u1 = getCacheKey o2 u2 \<longleftrightarrow>
     u1 = u2 \<and>
     num_or (maxIterations o1) 10 = num_or (maxIterations o2) 10 \<and>
     num_or (clickDelay o1) 100 = num_or (clickDelay o2) 100"
proof
  assume "getCacheKey o1 u1 = getCacheKey o2 u2"
  then have e: "encodeURIComponent u1 @ CHR '':'' # (show_int (num_or (maxIterations o1) 10) @ CHR '':'' # show_int (num_or (clickDelay o1) 100))
     = encodeURIComponent u2 @ CHR '':'' # (show_int (num_or (maxIterations o2) 10) @ CHR '':'' # show_int (num_or (clickDelay o2) 100))"
    by (simp add: getCacheKey_def)
  from split_at_colon[OF encodeURIComponent_no_colon encodeURIComponent_no_colon e]
  have u: "encodeURIComponent u1 = encodeURIComponent u2"
    and e2: "show_int (num_or (maxIterations o1) 10) @ CHR '':'' # show_int (num_or (clickDelay o1) 100)
      = show_int (num_or (maxIterations o2) 10) @ CHR '':'' # show_int (num_or (clickDelay o2) 100)"
    by simp_all
  from split_at_colon[OF show_int_no_colon show_int_no_colon e2]
  have "show_int (num_or (maxIterations o1) 10) = show_int (num_or (maxIterations o2) 10)"
    "show_int (num_or (clickDelay o1) 100) = show_int (num_or (clickDelay o2) 100)" by simp_all
  then show "u1 = u2 \<and>
     num_or (maxIterations o1) 10 = num_or (maxIterations o2) 10 \<and>
     num_or (clickDelay o1) 100 = num_or (clickDelay o2) 100"
    using encodeURIComponent_inj[OF u] show_int_inj by blast
next
  assume "u1 = u2 \<and>
     num_or (maxIterations o1) 10 = num_or (maxIterations o2) 10 \<and>
     num_or (clickDelay o1) 100 = num_or (clickDelay o2) 100"
  then show "getCacheKey o1 u1 = getCacheKey o2 u2" by (simp add: getCacheKey_def)
qed

section \<open>Results of scrape\<close>

lemma caught_result_ok:
  "(\<forall>r. scrapeResult v = Some r \<longrightarrow> result_ok r) \<Longrightarrow>
     (\<forall>r. scrapeResult (caught url msg downloads v) = Some r \<longrightarrow> result_ok r)"
  by (simp add: caught_def result_ok_def downloadOutcome_def)

lemma pageOutcome_result_ok: "result_ok (pageOutcome loadedUrl pageHtml x downloads)"
  by (simp add: result_ok_def pageOutcome_def Let_def)

lemma handle_result_ok:
  assumes "\<forall>r. scrapeResult v = Some r \<longrightarrow> result_ok r"
  shows "\<forall>r. scrapeResult (handle ops options url ev v) = Some r \<longrightarrow> result_ok r"
proof (cases ev)
  case (PageHandled page downloads)
  show ?thesis
  proof (cases "extractLinksWithTreeExpansion ops options page")
    case (Threw msg x)
    then show ?thesis using PageHandled caught_result_ok[OF assms] by simp
  next
    case (Returned x)
    show ?thesis
    proof (cases "pageContent ops (x_page x)")
      case (Inl msg)
      then show ?thesis using PageHandled Returned caught_result_ok[OF assms] by simp
    next
      case (Inr pageHtml)
      then show ?thesis using PageHandled Returned pageOutcome_result_ok by simp
    qed
  qed
next
  case (HandlerThrew msg downloads)
  then show ?thesis using caught_result_ok[OF assms] by simp
next
  case (RequestFailed msg downloads)
  then show ?thesis using assms by (simp add: result_ok_def downloadOutcome_def)
qed

lemma foldl_handle_result_ok:
  "(\<forall>r. scrapeResult v = Some r \<longrightarrow> result_ok r) \<Longrightarrow>
     (\<forall>r. scrapeResult (foldl (\<lambda>v ev. handle ops options url ev v) v events) = Some r \<longrightarrow> result_ok r)"
proof (induction events arbitrary: v)
  case Nil
  then show ?case by simp
next
  case (Cons ev events)
  show ?case using Cons.IH[OF handle_result_ok[OF Cons.prems]] by simp
qed

text \<open>One call: what it returns is a result of the cache or a result it built.\<close>

lemma scrape_result_ok:
  assumes "\<forall>k r. cacheGet k = Some r \<longrightarrow> result_ok r"
    and "returned (TreeScraper_scrape ops options crawl cacheGet url opts) = Inr r"
  shows "result_ok r"
proof (cases "if o_cache opts \<noteq> Some False then cacheGet (getCacheKey options url) else None")
  case (Some c)
  then have "returned (TreeScraper_scrape ops options crawl cacheGet url opts) = Inr c"
    by (simp add: TreeScraper_scrape_def Let_def)
  moreover have "result_ok c" using Some assms(1) by (auto split: if_splits)
  ultimately show ?thesis using assms(2) by simp
next
  case None
  obtain events where ev: "crawl url = Inr events"
    using assms(2) None by (cases "crawl url") (auto simp: TreeScraper_scrape_def Let_def scrape_failed_def)
  let ?v = "foldl (\<lambda>v ev. handle ops options url ev v) \<lparr> scrapeResult = None, scrapeError = None \<rparr> events"
  have "scrapeResult ?v = Some r"
    using assms(2) None ev
    by (auto simp: TreeScraper_scrape_def Let_def scrape_failed_def split: option.splits if_splits)
  moreover have "\<forall>r. scrapeResult ?v = Some r \<longrightarrow> result_ok r"
    by (rule foldl_handle_result_ok) simp
  ultimately show ?thesis by blast
qed

lemma scrape_writes_returned:
  "(k, r, ttl) \<in> set (cacheWrites (TreeScraper_scrape ops options crawl cacheGet url opts))
     \<Longrightarrow> returned (TreeScraper_scrape ops options crawl cacheGet url opts) = Inr r"
  by (auto simp: TreeScraper_scrape_def Let_def scrape_failed_def split: option.splits sum.splits if_splits)

lemma map_of_result_ok:
  "(\<forall>(k, r) \<in> set store. result_ok r) \<Longrightarrow> \<forall>k r. map_of store k = Some r \<longrightarrow> result_ok r"
  by (auto dest: map_of_SomeD)

lemma scrape_calls_result_ok:
  "(\<forall>(k, r) \<in> set store. result_ok r) \<Longrightarrow> run \<in> set (scrape_calls store calls)
     \<Longrightarrow> returned run = Inr r \<Longrightarrow> result_ok r"
proof (induction calls arbitrary: store)
  case Nil
  then show ?case by simp
next
  case (Cons c cs)
  let ?live = "cache_live (c_expired c) store"
  let ?run = "TreeScraper_scrape (c_ops c) (c_instance c) (c_crawl c) (map_of ?live) (c_url c) (c_opts c)"
  have live: "\<forall>(k, r) \<in> set ?live. result_ok r"
    using Cons.prems(1) by (auto simp: cache_live_def)
  have get: "\<forall>k r. map_of ?live k = Some r \<longrightarrow> result_ok r"
    using map_of_result_ok[OF live] .
  have written: "\<forall>(k, r) \<in> set (cache_written ?run). result_ok r"
  proof (clarify)
    fix k w
    assume "(k, w) \<in> set (cache_written ?run)"
    then obtain ttl where "(k, w, ttl) \<in> set (cacheWrites ?run)"
      by (auto simp: cache_written_def)
    then have "returned ?run = Inr w" by (rule scrape_writes_returned)
    then show "result_ok w" using scrape_result_ok[OF get] by blast
  qed
  have next_store: "\<forall>(k, r) \<in> set (cache_written ?run @ ?live). result_ok r"
    using written live by auto
  from Cons.prems(2) have "run = ?run \<or> run \<in> set (scrape_calls (cache_written ?run @ ?live) cs)"
    by (simp add: Let_def)
  then show ?case
  proof
    assume "run = ?run"
    then show ?thesis using scrape_result_ok[OF get] Cons.prems(3) by blast
  next
    assume "run \<in> set (scrape_calls (cache_written ?run @ ?live) cs)"
    from Cons.IH[OF next_store this Cons.prems(3)] show ?thesis .
  qed
qed

text \<open>
  C6, as amended.  In every sequence of calls of \<open>scrape\<close> on a cache that is empty at the
  start, every result that a call returns, built by the call or found in the cache, is
  either the download outcome, with no links, no interactions and confidence 0.8, or a
  page outcome with confidence 0.9 if \<^verbatim>\<open>interactionCount > 0\<close> and 0.5 otherwise.
\<close>

theorem scrape_confidence:
  assumes "run \<in> set (scrape_calls [] calls)"
    and "returned run = Inr r"
  shows "(sr_isDownload r \<and> sr_confidence r = 0.8 \<and> sr_links r = [] \<and> sr_linkCount r = 0 \<and>
          sr_interactionCount r = 0) \<or>
         (\<not> sr_isDownload r \<and> sr_confidence r = (if sr_interactionCount r > 0 then 0.9 else 0.5))"
proof -
  have "\<forall>(k, r) \<in> set ([] :: (string \<times> ScrapeResult) list). result_ok r" by simp
  from scrape_calls_result_ok[OF this assms] have "result_ok r" .
  then show ?thesis by (simp add: result_ok_def)
qed

text \<open>
  C7, as amended.  \<open>scrape\<close> writes the cache exactly when the call does not pass
  \<^verbatim>\<open>cache: false\<close>, the key was not cached and a result was captured; the TTL is the
  caller's \<^verbatim>\<open>cacheExpiry\<close> divided by 1000 and rounded down, where an absent or zero
  \<^verbatim>\<open>cacheExpiry\<close> counts as 300000 ms, a TTL of 300 seconds.
\<close>

theorem cache_write_ttl:
  "cacheWrites (TreeScraper_scrape ops options crawl cacheGet url opts) =
     (if o_cache opts \<noteq> Some False \<and> cacheGet (getCacheKey options url) = None
      then (case returned (TreeScraper_scrape ops options crawl cacheGet url opts) of
              Inl e \<Rightarrow> []
            | Inr r \<Rightarrow>
                [(getCacheKey options url, r,
                  (case o_cacheExpiry opts of
                     None \<Rightarrow> 300
                   | Some ms \<Rightarrow> if ms = 0 then 300 else ms div 1000))])
      else [])"
  by (auto simp: TreeScraper_scrape_def Let_def scrape_failed_def num_or_def
        split: option.splits sum.splits)

text \<open>
  C6 as stated fails for the download outcome: it has no interaction and confidence 0.8,
  not 0.5.
\<close>

theorem download_confidence_counterexample:
  "returned (TreeScraper_scrape (ex_ops 0 []) (ex_options None)
       (\<lambda>u. Inr [HandlerThrew ''page.waitForLoadState: Download is starting'' [ex_download]])
       (\<lambda>k. None) ''https://x.org/f.pdf'' \<lparr> o_cache = None, o_cacheExpiry = None \<rparr>)
     = Inr (downloadOutcome ''https://x.org/f.pdf'' [ex_download]) \<and>
   sr_interactionCount (downloadOutcome ''https://x.org/f.pdf'' [ex_download]) = 0 \<and>
   sr_confidence (downloadOutcome ''https://x.org/f.pdf'' [ex_download]) = 0.8 \<and>
   sr_confidence (downloadOutcome ''https://x.org/f.pdf'' [ex_download]) \<noteq> 0.5"
proof -
  have d: "isDownloadError ''page.waitForLoadState: Download is starting''" by code_simp
  have n: "[ex_download] \<noteq> []" by simp
  show ?thesis
    using d n by (simp add: TreeScraper_scrape_def Let_def downloadOutcome_def caught_def)
qed

lemma ex_first_call:
  "TreeScraper_scrape (ex_ops 3 []) (ex_options None)
       (\<lambda>u. Inr [HandlerThrew ''page.waitForLoadState: Download is starting'' [ex_download]])
       (map_of []) ''https://x.org/f.pdf'' \<lparr> o_cache = None, o_cacheExpiry = None \<rparr>
     = \<lparr> returned = Inr (downloadOutcome ''https://x.org/f.pdf'' [ex_download]),
         cacheWrites = [(getCacheKey (ex_options None) ''https://x.org/f.pdf'',
                         downloadOutcome ''https://x.org/f.pdf'' [ex_download], 300)] \<rparr>"
proof -
  have d: "isDownloadError ''page.waitForLoadState: Download is starting''" by code_simp
  have n: "[ex_download] \<noteq> []" by simp
  show ?thesis
    using d n by (simp add: TreeScraper_scrape_def Let_def caught_def num_or_def)
qed

lemma ex_expansion_returns:
  "\<exists>x. extractLinksWithTreeExpansion (ex_ops 3 []) (ex_options None) 0 = Returned x \<and>
       x_interactionCount x = 3"
proof -
  have "extractLinksWithTreeExpansion (ex_ops 3 []) (ex_options None) 0
          = Returned (outcome_state (extractLinksWithTreeExpansion (ex_ops 3 []) (ex_options None) 0))"
    by code_simp
  moreover have "x_interactionCount
      (outcome_state (extractLinksWithTreeExpansion (ex_ops 3 []) (ex_options None) 0)) = 3"
    by code_simp
  ultimately show ?thesis by blast
qed

theorem scrape_confidence_witness:
  "scrape_calls [] [ex_call_download, ex_call_page \<lparr> c_expired := [] \<rparr>,
                    ex_call_page \<lparr> c_expired := [getCacheKey (ex_options None) ''https://x.org/f.pdf''] \<rparr>] ! 1
     = \<lparr> returned = Inr (downloadOutcome ''https://x.org/f.pdf'' [ex_download]), cacheWrites = [] \<rparr> \<and>
   sr_confidence (downloadOutcome ''https://x.org/f.pdf'' [ex_download]) = 0.8 \<and>
   returned (scrape_calls [] [ex_call_download, ex_call_page \<lparr> c_expired := [] \<rparr>,
                    ex_call_page \<lparr> c_expired := [getCacheKey (ex_options None) ''https://x.org/f.pdf''] \<rparr>] ! 2)
     = Inr (pageOutcome ''https://x.org/'' ''<html><body></body></html>''
              (outcome_state (extractLinksWithTreeExpansion (ex_ops 3 []) (ex_options None) 0)) []) \<and>
   sr_interactionCount (pageOutcome ''https://x.org/'' ''<html><body></body></html>''
              (outcome_state (extractLinksWithTreeExpansion (ex_ops 3 []) (ex_options None) 0)) []) = 3 \<and>
   sr_confidence (pageOutcome ''https://x.org/'' ''<html><body></body></html>''
              (outcome_state (extractLinksWithTreeExpansion (ex_ops 3 []) (ex_options None) 0)) []) = 0.9"
proof -
  let ?k = "getCacheKey (ex_options None) ''https://x.org/f.pdf''"
  let ?calls = "[ex_call_download, ex_call_page \<lparr> c_expired := [] \<rparr>, ex_call_page \<lparr> c_expired := [?k] \<rparr>]"
  let ?d = "downloadOutcome ''https://x.org/f.pdf'' [ex_download]"
  obtain x where x: "extractLinksWithTreeExpansion (ex_ops 3 []) (ex_options None) 0 = Returned x"
      "x_interactionCount x = 3"
    using ex_expansion_returns by blast
  have xe: "outcome_state (extractLinksWithTreeExpansion (ex_ops 3 []) (ex_options None) 0) = x"
    using x(1) by (simp add: outcome_state_def)
  let ?p = "pageOutcome ''https://x.org/'' ''<html><body></body></html>'' x []"
  have third: "TreeScraper_scrape (ex_ops 3 []) (ex_options None) (\<lambda>u. Inr [PageHandled 0 []])
       (map_of (cache_live [?k] [(?k, ?d)])) ''https://x.org/f.pdf'' \<lparr> o_cache = None, o_cacheExpiry = None \<rparr>
       = \<lparr> returned = Inr ?p, cacheWrites = [(?k, ?p, 300)] \<rparr>"
    using x(1) by (simp add: TreeScraper_scrape_def Let_def cache_live_def num_or_def ex_ops_def)
  have runs: "scrape_calls [] ?calls =
      [\<lparr> returned = Inr ?d, cacheWrites = [(?k, ?d, 300)] \<rparr>,
       \<lparr> returned = Inr ?d, cacheWrites = [] \<rparr>,
       \<lparr> returned = Inr ?p, cacheWrites = [(?k, ?p, 300)] \<rparr>]"
    using ex_first_call third
    by (simp add: ex_call_download_def ex_call_page_def Let_def cache_live_def cache_written_def
          TreeScraper_scrape_def)
  have second: "scrape_calls [] ?calls ! 1 = \<lparr> returned = Inr ?d, cacheWrites = [] \<rparr>"
    and last: "returned (scrape_calls [] ?calls ! 2) = Inr ?p"
    unfolding runs by simp_all
  have m1: "scrape_calls [] ?calls ! 1 \<in> set (scrape_calls [] ?calls)"
    and m2: "scrape_calls [] ?calls ! 2 \<in> set (scrape_calls [] ?calls)"
    unfolding runs by simp_all
  have r1: "returned (scrape_calls [] ?calls ! 1) = Inr ?d" using second by simp
  have dl: "sr_isDownload ?d" by (simp add: downloadOutcome_def)
  have pg: "\<not> sr_isDownload ?p" "sr_interactionCount ?p = 3"
    using x(2) by (simp_all add: pageOutcome_def Let_def)
  from scrape_confidence[OF m1 r1] dl have c1: "sr_confidence ?d = 0.8" by blast
  from scrape_confidence[OF m2 last] pg have c2: "sr_confidence ?p = 0.9" by simp
  show ?thesis unfolding xe using second c1 last pg(2) c2 by blast
qed

text \<open>
  C7 as stated fails for \<^verbatim>\<open>cacheExpiry: 0\<close>: the result is written, with a TTL of 300
  seconds.
\<close>

theorem cache_expiry_zero_counterexample:
  "map (\<lambda>(k, r, ttl). (k, ttl)) (cacheWrites (TreeScraper_scrape (ex_ops 0 []) (ex_options None)
       (\<lambda>u. Inr [PageHandled 0 []]) (\<lambda>k. None) ''https://x.org/''
       \<lparr> o_cache = None, o_cacheExpiry = Some 0 \<rparr>))
     = [(''tree:https%3A%2F%2Fx.org%2F:10:100'', 300)]"
proof -
  have k: "getCacheKey (ex_options None) ''https://x.org/'' = ''tree:https%3A%2F%2Fx.org%2F:10:100''"
    by code_simp
  have "extractLinksWithTreeExpansion (ex_ops 0 []) (ex_options None) 0
          = Returned (outcome_state (extractLinksWithTreeExpansion (ex_ops 0 []) (ex_options None) 0))"
    by code_simp
  then obtain x where x: "extractLinksWithTreeExpansion (ex_ops 0 []) (ex_options None) 0 = Returned x"
    by blast
  show ?thesis
    using x by (simp add: TreeScraper_scrape_def Let_def num_or_def k ex_ops_def)
qed

theorem cache_write_ttl_witness:
  "map (\<lambda>(k, r, ttl). (k, ttl)) (cacheWrites (TreeScraper_scrape (ex_ops 0 []) (ex_options None)
       (\<lambda>u. Inr [PageHandled 0 []]) (\<lambda>k. None) ''https://x.org/''
       \<lparr> o_cache = Some True, o_cacheExpiry = Some 60000 \<rparr>))
     = [(''tree:https%3A%2F%2Fx.org%2F:10:100'', 60)] \<and>
   cacheWrites (TreeScraper_scrape (ex_ops 0 []) (ex_options None)
       (\<lambda>u. Inr [PageHandled 0 []]) (\<lambda>k. None) ''https://x.org/''
       \<lparr> o_cache = Some False, o_cacheExpiry = Some 60000 \<rparr>) = []"
proof -
  have k: "getCacheKey (ex_options None) ''https://x.org/'' = ''tree:https%3A%2F%2Fx.org%2F:10:100''"
    by code_simp
  have "extractLinksWithTreeExpansion (ex_ops 0 []) (ex_options None) 0
          = Returned (outcome_state (extractLinksWithTreeExpansion (ex_ops 0 []) (ex_options None) 0))"
    by code_simp
  then obtain x where x: "extractLinksWithTreeExpansion (ex_ops 0 []) (ex_options None) 0 = Returned x"
    by blast
  have r: "returned (TreeScraper_scrape (ex_ops 0 []) (ex_options None)
       (\<lambda>u. Inr [PageHandled 0 []]) (\<lambda>k. None) ''https://x.org/''
       \<lparr> o_cache = Some True, o_cacheExpiry = Some 60000 \<rparr>)
        = Inr (pageOutcome ''https://x.org/'' ''<html><body></body></html>'' x [])"
    using x by (simp add: TreeScraper_scrape_def Let_def ex_ops_def)
  show ?thesis
    using cache_write_ttl[of "ex_ops 0 []" "ex_options None" "\<lambda>u. Inr [PageHandled 0 []]" "\<lambda>k. None"
        "''https://x.org/''" "\<lparr> o_cache = Some True, o_cacheExpiry = Some 60000 \<rparr>"]
      cache_write_ttl[of "ex_ops 0 []" "ex_options None" "\<lambda>u. Inr [PageHandled 0 []]" "\<lambda>k. None"
        "''https://x.org/''" "\<lparr> o_cache = Some False, o_cacheExpiry = Some 60000 \<rparr>"]
    by (simp add: k r)
qed

theorem cache_key_injective_witness:
  "getCacheKey (ex_tree_options (Some 3) None None) ''https://x.org/''
     \<noteq> getCacheKey (ex_tree_options (Some 5) None None) ''https://x.org/''"
  using cache_key_injective[of "ex_tree_options (Some 3) None None" "''https://x.org/''"
      "ex_tree_options (Some 5) None None" "''https://x.org/''"]
  by (simp add: ex_tree_options_def TreeScraper_new_def num_or_def)

text \<open>
  C8 as stated fails: a custom selector changes what the expansion clicks and not the
  key, and \<^verbatim>\<open>clickDelay\<close> 0 and 100 share a key although the waits are 1000 ms and
  100 ms.
\<close>

theorem cache_key_collision_counterexample:
  "getCacheKey (ex_tree_options None None (Some [''.node''])) ''https://x.org/''
     = getCacheKey (ex_tree_options None None None) ''https://x.org/'' \<and>
   x_interactionCount (outcome_state (extractLinksWithTreeExpansion ex_custom_ops
       (ex_tree_options None None (Some [''.node''])) 0)) = 1 \<and>
   x_interactionCount (outcome_state (extractLinksWithTreeExpansion ex_custom_ops
       (ex_tree_options None None None) 0)) = 0 \<and>
   getCacheKey (ex_tree_options None (Some 0) None) ''https://x.org/''
     = getCacheKey (ex_tree_options None (Some 100) None) ''https://x.org/'' \<and>
   num_or (clickDelay (ex_tree_options None (Some 0) None)) 1000 = 1000 \<and>
   num_or (clickDelay (ex_tree_options None (Some 100) None)) 1000 = 100"
  by code_simp


end
